theory Spec2Isabelle
  imports Main "HOL-Library.AList" "HOL-Library.List_Lexorder"
begin

section \<open>Python values shared by both modules\<close>

text \<open>
  Exceptions are values. Only the exception classes that the two modules raise themselves,
  or that the library calls they make raise on the paths modelled here, are listed.
  The spec's language-neutral names are sites of these: \<open>InvalidArgument\<close> is the
  \<open>ValueError\<close> of \<open>tile\<close> and \<open>wrap_algorithm\<close> and the \<open>TypeError\<close> (or the
  \<open>ValueError\<close> of \<open>Signature.replace\<close>) of \<open>extract_arguments\<close>; \<open>NotFound\<close> is the
  \<open>ValueError\<close> of \<open>auto_merge\<close>.
\<close>

datatype py_error =
    ValueError string
  | TypeError string
  | IndexError string
  | KeyError string
  | FileExistsError string
  | NotADirectoryError string
  | FileNotFoundError string

text \<open>Python ordered dictionaries are association lists with distinct keys:
  \<open>d[k] = v\<close> is \<^const>\<open>AList.update\<close> (replace in place, else append),
  \<open>d.pop(k)\<close> removes the key, \<open>k in d\<close> is membership in the keys.\<close>

definition dict_contains :: "('k \<times> 'a) list \<Rightarrow> 'k \<Rightarrow> bool" where
  "dict_contains d k = (k \<in> fst ` set d)"



section \<open>nd/algorithm.py\<close>

subsection \<open>Algorithm.parallel\_apply\<close>

text \<open>
  \<open>utils.parallel\<close> is not part of the sources; it is a parameter. The method body is
  \<^verbatim>\<open>return parallel(self.apply, dim=dim, chunks=jobs)\<close>.
\<close>

definition parallel_apply ::
  "(('d \<Rightarrow> 'e) \<Rightarrow> string \<Rightarrow> nat option \<Rightarrow> 'r) \<Rightarrow> ('d \<Rightarrow> 'e) \<Rightarrow> 'd \<Rightarrow> string \<Rightarrow> nat option \<Rightarrow> 'r" where
  "parallel_apply parallel self_apply ds dim jobs = parallel self_apply dim jobs"

subsection \<open>inspect.Signature as used by extract\_arguments and wrap\_algorithm\<close>

datatype param_kind =
  POSITIONAL_ONLY | POSITIONAL_OR_KEYWORD | VAR_POSITIONAL | KEYWORD_ONLY | VAR_KEYWORD

fun kind_rank :: "param_kind \<Rightarrow> nat" where
  "kind_rank POSITIONAL_ONLY = 0"
| "kind_rank POSITIONAL_OR_KEYWORD = 1"
| "kind_rank VAR_POSITIONAL = 2"
| "kind_rank KEYWORD_ONLY = 3"
| "kind_rank VAR_KEYWORD = 4"

record 'v parameter =
  pname :: string
  pkind :: param_kind
  pdefault :: "'v option"  \<comment> \<open>\<open>None\<close> is \<open>Parameter.empty\<close>\<close>

text \<open>A bound argument: a plain value, the tuple of a \<open>*args\<close> parameter or the
  dictionary of a \<open>**kwargs\<close> parameter.\<close>

datatype 'v bound = Val 'v | Tuple "'v list" | Dict "(string \<times> 'v) list"

definition quote :: "string \<Rightarrow> string" where
  "quote s = [CHR 0x27] @ s @ [CHR 0x27]"

text \<open>The constructor of \<open>Signature\<close> validates the parameter list; \<open>Signature.replace\<close>
  goes through it. The loop keeps the highest kind seen, whether a parameter of that kind
  had a default, and the names seen.\<close>

fun validate_parameters ::
  "param_kind \<Rightarrow> bool \<Rightarrow> string list \<Rightarrow> 'v parameter list \<Rightarrow> py_error + 'v parameter list" where
  "validate_parameters top_kind kind_defaults seen [] = Inr []"
| "validate_parameters top_kind kind_defaults seen (p # ps) =
     (if kind_rank (pkind p) < kind_rank top_kind then Inl (ValueError ''wrong parameter order'')
      else
        let kind_defaults = (if kind_rank (pkind p) > kind_rank top_kind then False else kind_defaults);
            top_kind = pkind p
        in if (pkind p = POSITIONAL_ONLY \<or> pkind p = POSITIONAL_OR_KEYWORD)
              \<and> pdefault p = None \<and> kind_defaults
           then Inl (ValueError ''non-default argument follows default argument'')
           else
             let kind_defaults = (if (pkind p = POSITIONAL_ONLY \<or> pkind p = POSITIONAL_OR_KEYWORD)
                                     \<and> pdefault p \<noteq> None then True else kind_defaults)
             in if pname p \<in> set seen
                then Inl (ValueError (''duplicate parameter name: '' @ quote (pname p)))
                else (case validate_parameters top_kind kind_defaults (pname p # seen) ps of
                        Inl e \<Rightarrow> Inl e
                      | Inr qs \<Rightarrow> Inr (p # qs)))"

definition signature_replace :: "'v parameter list \<Rightarrow> py_error + 'v parameter list" where
  \<comment> \<open>\<open>sig.replace(parameters=ps)\<close>\<close>
  "signature_replace ps = validate_parameters POSITIONAL_ONLY False [] ps"




subsection \<open>extract\_arguments\<close>





subsection \<open>wrap\_algorithm\<close>

text \<open>
  A class passed to \<open>wrap_algorithm\<close>, as far as the function looks at it: whether it is a
  subclass of \<open>Algorithm\<close>, its \<open>__module__\<close>, \<open>__name__\<close> and \<open>__doc__\<close> (\<open>None\<close> when the
  class has no docstring), the parameters of \<open>inspect.signature(algo.__init__)\<close> and of
  \<open>inspect.signature(algo.apply)\<close> (receiver first), the call \<open>algo(*a, **k)\<close> and the
  call \<open>instance.apply(**kw)\<close>.
\<close>

record ('v, 'i, 'r) algo_class =
  is_algorithm_subclass :: bool
  cls_module :: string
  cls_name :: string
  cls_doc :: "string option"
  init_params :: "'v parameter list"
  apply_params :: "'v parameter list"
  construct :: "'v list \<Rightarrow> (string \<times> 'v) list \<Rightarrow> py_error + 'i"
  apply_method :: "'i \<Rightarrow> (string \<times> 'v bound) list \<Rightarrow> py_error + 'r"




text \<open>What \<open>wrap_algorithm\<close> sets on the function it returns. The rewriting of the code
  object's file name and line number has no effect on calls and is left out.\<close>

record 'v wrapped =
  w_module :: string
  w_name :: string
  w_doc :: string
  w_signature :: "'v parameter list"

definition wrap_algorithm ::
  "('v, 'i, 'r) algo_class \<Rightarrow> string option \<Rightarrow> py_error + 'v wrapped" where
  "wrap_algorithm algo name =
     (if \<not> is_algorithm_subclass algo
      then Inl (ValueError ''Class must be an instance of `nd.Algorithm`.'')
      else
        let link = '':class:`'' @ cls_module algo @ ''.'' @ cls_name algo @ ''`'' in
        (case cls_doc algo of
           None \<Rightarrow> Inl (TypeError ''must be str, not NoneType'')
         | Some doc \<Rightarrow>
             (case signature_replace (tl (apply_params algo) @ tl (init_params algo)) of
                Inl e \<Rightarrow> Inl e
              | Inr sig \<Rightarrow>
                  Inr \<lparr>w_module = cls_module algo,
                       w_name = (case name of None \<Rightarrow> ''_wrapper'' | Some n \<Rightarrow> n),
                       w_doc = ''Wrapper for '' @ link @ ''.'' @ [CHR 0x0A] @ ''    '' @ doc,
                       w_signature = sig\<rparr>)))"

subsection \<open>Reference descriptions for the binding of plain signatures\<close>




definition multiple_values :: "'v parameter \<Rightarrow> py_error" where
  "multiple_values p = TypeError (''multiple values for argument '' @ quote (pname p))"

definition missing_required :: "'v parameter \<Rightarrow> py_error" where
  "missing_required p = TypeError (''missing a required argument: '' @ quote (pname p))"

definition keyword_bound :: "'v parameter list \<Rightarrow> (string \<times> 'v) list \<Rightarrow> (string \<times> 'v bound) list" where
  "keyword_bound rest kwargs =
     concat (map (\<lambda>p. case map_of kwargs (pname p) of None \<Rightarrow> [] | Some v \<Rightarrow> [(pname p, Val v)]) rest)"

definition expected_binding ::
  "'v parameter list \<Rightarrow> 'v list \<Rightarrow> (string \<times> 'v) list \<Rightarrow> py_error + (string \<times> 'v bound) list" where
  "expected_binding qs args kwargs =
     (let n = length qs; k = min n (length args); pos = take k qs; rest = drop k qs in
      case find (\<lambda>p. dict_contains kwargs (pname p)) pos of
        Some p \<Rightarrow> Inl (multiple_values p)
      | None \<Rightarrow>
         (case find (\<lambda>p. pdefault p = None \<and> \<not> dict_contains kwargs (pname p)) rest of
            Some p \<Rightarrow> Inl (missing_required p)
          | None \<Rightarrow>
              Inr (zip (map pname pos) (map Val args)
                   @ (if n < length args then [(''args'', Tuple (drop n args))] else [])
                   @ keyword_bound rest kwargs
                   @ (let kw = filter (\<lambda>kv. fst kv \<notin> pname ` set rest) kwargs
                      in if kw \<noteq> [] then [(''kwargs'', Dict kw)] else []))))"









subsection \<open>A concrete algorithm class for the examples\<close>

text \<open>A function \<^verbatim>\<open>def f(a, b)\<close>, and a class whose \<open>apply(self, a, b)\<close> and
  \<open>__init__(self, p1)\<close> are total: the instance is the list of constructor values, \<open>apply\<close>
  adds them up and counts its keyword arguments.\<close>

definition example_params :: "nat parameter list" where
  "example_params = [\<lparr>pname = ''a'', pkind = POSITIONAL_OR_KEYWORD, pdefault = None\<rparr>,
                     \<lparr>pname = ''b'', pkind = POSITIONAL_OR_KEYWORD, pdefault = None\<rparr>]"

definition example_algo :: "(nat, nat list, nat) algo_class" where
  "example_algo = \<lparr>is_algorithm_subclass = True, cls_module = ''nd.change'', cls_name = ''Omnibus'',
     cls_doc = None,
     init_params = [\<lparr>pname = ''self'', pkind = POSITIONAL_OR_KEYWORD, pdefault = None\<rparr>,
                    \<lparr>pname = ''p1'', pkind = POSITIONAL_OR_KEYWORD, pdefault = None\<rparr>],
     apply_params = \<lparr>pname = ''self'', pkind = POSITIONAL_OR_KEYWORD, pdefault = None\<rparr> # example_params,
     construct = (\<lambda>a k. Inr (a @ map snd k)),
     apply_method = (\<lambda>inst kw. Inr (sum_list inst + length kw))\<rparr>"




section \<open>geo/tiling.py\<close>

subsection \<open>Datasets\<close>

text \<open>
  An \<open>xarray.Dataset\<close> as far as the module looks at it: the dimensions in the order
  \<open>ds.dims\<close> lists them, each with its coordinate values \<open>ds[d].values\<close>, and the values of
  the dataset as one array over all the dimensions, nested in the order of the dimensions
  (several variables over the same dimensions are one array of tuples). Coordinates are
  integers. The shape of the array agrees with the lengths of the coordinates in every
  dataset that comes from xarray; the operations below keep that and do not test it.
\<close>

datatype 'v nd = Scalar 'v | Arr "'v nd list"

record 'v dataset =
  dims :: "(string \<times> int list) list"
  data :: "'v nd"

text \<open>A Python \<open>slice(start, stop)\<close> with step \<open>None\<close>; \<open>None\<close> bounds are \<open>None\<close> here.\<close>

datatype pyslice = Slice (slice_start: "int option") (slice_stop: "int option")

definition py_index :: "nat \<Rightarrow> int \<Rightarrow> nat" where
  \<comment> \<open>a slice bound on a sequence of length \<open>n\<close>: negative bounds count from the end, and
     the result is clipped to \<open>0..n\<close>\<close>
  "py_index n i = (if i < 0 then nat (max 0 (int n + i)) else min n (nat i))"

definition slice_bounds :: "pyslice \<Rightarrow> nat \<Rightarrow> nat \<times> nat" where
  "slice_bounds s n =
     ((case slice_start s of None \<Rightarrow> 0 | Some i \<Rightarrow> py_index n i),
      (case slice_stop s of None \<Rightarrow> n | Some j \<Rightarrow> py_index n j))"

definition slice_list :: "pyslice \<Rightarrow> 'a list \<Rightarrow> 'a list" where
  \<comment> \<open>\<open>xs[start:stop]\<close>\<close>
  "slice_list s xs = (case slice_bounds s (length xs) of (lo, hi) \<Rightarrow> take (hi - lo) (drop lo xs))"

fun isel_nd :: "pyslice option list \<Rightarrow> 'v nd \<Rightarrow> 'v nd" where
  \<comment> \<open>one optional slice per axis, outermost first\<close>
  "isel_nd [] a = a"
| "isel_nd (s # ss) (Scalar v) = Scalar v"
| "isel_nd (None # ss) (Arr xs) = Arr (map (isel_nd ss) xs)"
| "isel_nd (Some s # ss) (Arr xs) = Arr (map (isel_nd ss) (slice_list s xs))"

definition isel :: "'v dataset \<Rightarrow> (string \<times> pyslice) list \<Rightarrow> py_error + 'v dataset" where
  \<comment> \<open>\<open>ds.isel(indexers)\<close> with slices: a dimension the dataset does not have is refused\<close>
  "isel ds indexers =
     (if list_ex (\<lambda>kv. \<not> dict_contains (dims ds) (fst kv)) indexers
      then Inl (ValueError ''dimensions do not exist'')
      else Inr \<lparr>dims = map (\<lambda>(d, c). (d, case map_of indexers d of None \<Rightarrow> c | Some s \<Rightarrow> slice_list s c)) (dims ds),
                data = isel_nd (map (\<lambda>(d, c). map_of indexers d) (dims ds)) (data ds)\<rparr>)"

fun items :: "'v nd \<Rightarrow> 'v nd list" where
  "items (Arr xs) = xs"
| "items (Scalar v) = []"

fun concat_nd :: "nat \<Rightarrow> 'v nd list \<Rightarrow> 'v nd" where
  \<comment> \<open>concatenation of arrays along the axis \<open>k\<close>; the arrays agree on the axes before \<open>k\<close>\<close>
  "concat_nd 0 as = Arr (concat (map items as))"
| "concat_nd (Suc k) as =
     Arr (map (\<lambda>i. concat_nd k (map (\<lambda>a. items a ! i) as)) [0..<length (items (hd as))])"

fun index_of :: "'a \<Rightarrow> 'a list \<Rightarrow> nat" where
  "index_of x [] = 0"
| "index_of x (y # ys) = (if x = y then 0 else Suc (index_of x ys))"

text \<open>
  \<open>xr.auto_combine(group, concat_dim=d)\<close> on fragments that have the same dimensions and the
  same coordinates on every dimension but \<open>d\<close>: the coordinates along \<open>d\<close> and the values are
  concatenated in the order of the list. Fragments that disagree elsewhere are aligned by
  xarray, filling in missing values; that is not modelled, and the model stops with
  \<open>Unmodelled\<close>.
\<close>

datatype merge_error = Py py_error | Unmodelled string

definition agree_except :: "string \<Rightarrow> 'v dataset \<Rightarrow> 'v dataset \<Rightarrow> bool" where
  "agree_except d a b =
     (map fst (dims a) = map fst (dims b)
      \<and> list_all (\<lambda>(n, c). n = d \<or> map_of (dims b) n = Some c) (dims a))"

definition coords_of :: "'v dataset \<Rightarrow> string \<Rightarrow> int list" where
  \<comment> \<open>\<open>ds[d].values\<close> where the dataset is known to have the dimension\<close>
  "coords_of ds d = (case map_of (dims ds) d of None \<Rightarrow> [] | Some c \<Rightarrow> c)"

definition auto_combine :: "'v dataset list \<Rightarrow> string \<Rightarrow> merge_error + 'v dataset" where
  "auto_combine grp d =
     (case grp of
        [] \<Rightarrow> Inl (Py (ValueError ''no datasets to combine''))
      | g # gs \<Rightarrow>
          if \<not> dict_contains (dims g) d \<or> \<not> list_all (agree_except d g) gs
          then Inl (Unmodelled ''alignment of fragments that disagree off the concatenation axis'')
          else Inr \<lparr>dims = map (\<lambda>(n, c). (n, if n = d then concat (map (\<lambda>f. coords_of f d) grp) else c))
                             (dims g),
                    data = concat_nd (index_of d (map fst (dims g))) (map data grp)\<rparr>)"

subsection \<open>The file system and the I/O namespace\<close>

text \<open>
  A path is the list of its components, \<open>os.path.join(path, name)\<close> appends a component, and
  the empty path is the root, a directory. A file holds the dataset that was written to it.
  The state also records, in order, the calls that changed it.
\<close>

type_synonym path = "string list"

datatype 'v node = Dir | File "'v dataset"

datatype fs_event = MakeDirs path | WriteFile path

record 'v fs =
  nodes :: "path \<Rightarrow> 'v node option"
  trace :: "fs_event list"

definition isfile :: "'v fs \<Rightarrow> path \<Rightarrow> bool" where
  "isfile s p = (case nodes s p of Some (File _) \<Rightarrow> True | _ \<Rightarrow> False)"

definition isdir :: "'v fs \<Rightarrow> path \<Rightarrow> bool" where
  "isdir s p = (p = [] \<or> nodes s p = Some Dir)"

text \<open>
  \<open>os.makedirs(path)\<close>: every missing directory on the way to \<open>path\<close> is created, \<open>path\<close>
  last. It raises \<open>FileExistsError\<close> when \<open>path\<close> exists and \<open>NotADirectoryError\<close> when a
  component on the way is a regular file.
\<close>

definition on_the_way :: "path \<Rightarrow> path \<Rightarrow> bool" where
  \<comment> \<open>\<open>q\<close> is \<open>p\<close> or one of the directories above it\<close>
  "on_the_way q p = (take (length q) p = q)"

definition makedirs :: "'v fs \<Rightarrow> path \<Rightarrow> py_error + 'v fs" where
  "makedirs s p =
     (if p = [] \<or> nodes s p \<noteq> None then Inl (FileExistsError ''File exists'')
      else if list_ex (\<lambda>n. isfile s (take n p)) [0..<length p]
      then Inl (NotADirectoryError ''Not a directory'')
      else Inr \<lparr>nodes = (\<lambda>q. if on_the_way q p \<and> nodes s q = None then Some Dir else nodes s q),
                trace = trace s @ [MakeDirs p]\<rparr>)"

text \<open>
  Modelled from the spec: \<open>satio.to_netcdf\<close>, the write operation of the I/O namespace, is
  not part of the sources. The spec gives it as \<open>write(dataset, file_path)\<close>, which
  serializes a dataset to the given path, overwriting any existing file at that path.
\<close>

definition to_netcdf :: "'v fs \<Rightarrow> 'v dataset \<Rightarrow> path \<Rightarrow> 'v fs" where
  "to_netcdf s ds p = \<lparr>nodes = (nodes s)(p \<mapsto> File ds), trace = trace s @ [WriteFile p]\<rparr>"

text \<open>\<open>xr.open_dataset(path, chunks={})\<close>: the dataset stored in the file.\<close>

definition open_dataset :: "'v fs \<Rightarrow> path \<Rightarrow> py_error + 'v dataset" where
  "open_dataset s p =
     (case nodes s p of
        Some (File ds) \<Rightarrow> Inr ds
      | _ \<Rightarrow> Inl (FileNotFoundError ''No such file or directory''))"

subsection \<open>tile\<close>

text \<open>The \<open>buffer\<close> argument of \<open>tile\<close> and \<open>auto_merge\<close>: an \<open>int\<close>, a \<open>dict\<close>, the string
  \<open>'auto'\<close>, or any other value.\<close>

datatype buffer_spec = BufInt int | BufDict "(string \<times> int) list" | BufAuto | BufOther

fun tile_buf :: "buffer_spec \<Rightarrow> string \<Rightarrow> int" where
  \<comment> \<open>the value of \<open>_buf\<close> for a dimension in \<open>tile\<close>\<close>
  "tile_buf (BufInt b) dim = b"
| "tile_buf (BufDict d) dim = (case map_of d dim of Some b \<Rightarrow> b | None \<Rightarrow> 0)"
| "tile_buf _ dim = 0"

fun chunk_slices :: "int \<Rightarrow> int \<Rightarrow> nat list \<Rightarrow> pyslice list" where
  \<comment> \<open>the loop over \<open>chunk_lens\<close>, from the running \<open>start\<close>\<close>
  "chunk_slices start buf [] = []"
| "chunk_slices start buf (l # ls) =
     Slice (Some (max 0 (start - buf))) (Some (start + int l + buf))
       # chunk_slices (start + int l) buf ls"

definition tile_slices :: "(string \<times> nat list) list \<Rightarrow> buffer_spec \<Rightarrow> (string \<times> pyslice list) list" where
  \<comment> \<open>step 1: the dictionary \<open>slices\<close>, from \<open>chunked.chunks.items()\<close>\<close>
  "tile_slices chunks buffer = map (\<lambda>(dim, chunk_lens). (dim, chunk_slices 0 (tile_buf buffer dim) chunk_lens)) chunks"

text \<open>
  Modelled from the spec: \<open>utils.dict_product\<close> is not part of the sources. The spec gives it
  as the helper that enumerates every combination of one slice per dimension, each as a
  mapping from dimension to a single slice. The order of the enumeration is not stated;
  here the last dimension varies fastest.
\<close>

fun dict_product :: "('k \<times> 'a list) list \<Rightarrow> ('k \<times> 'a) list list" where
  "dict_product [] = [[]]"
| "dict_product ((k, xs) # rest) = concat (map (\<lambda>x. map (\<lambda>r. (k, x) # r) (dict_product rest)) xs)"

definition digit_char :: "nat \<Rightarrow> char" where
  "digit_char n = char_of (48 + n)"

fun str_nat :: "nat \<Rightarrow> string" where
  "str_nat n = (if n < 10 then [digit_char n] else str_nat (n div 10) @ [digit_char (n mod 10)])"

definition str_int :: "int \<Rightarrow> string" where
  \<comment> \<open>\<open>str(i)\<close> of an \<open>int\<close>\<close>
  "str_int i = (if i < 0 then CHR ''-'' # str_nat (nat (- i)) else str_nat (nat i))"

fun join :: "string \<Rightarrow> string list \<Rightarrow> string" where
  \<comment> \<open>\<open>sep.join(parts)\<close>\<close>
  "join sep [] = []"
| "join sep [x] = x"
| "join sep (x # y # ys) = x @ sep @ join sep (y # ys)"

definition start_str :: "pyslice \<Rightarrow> string" where
  \<comment> \<open>\<open>f'{s.start}'\<close>\<close>
  "start_str s = (case slice_start s of None \<Rightarrow> ''None'' | Some i \<Rightarrow> str_int i)"

definition tile_name :: "string \<Rightarrow> (string \<times> pyslice) list \<Rightarrow> string" where
  "tile_name prefix slice_dict =
     prefix @ ''.'' @ join ''.'' (map (\<lambda>(dim, s). dim @ ''_'' @ start_str s) slice_dict) @ ''.nc''"

fun write_tiles ::
  "'v fs \<Rightarrow> 'v dataset \<Rightarrow> path \<Rightarrow> string \<Rightarrow> (string \<times> pyslice) list list \<Rightarrow> (py_error + unit) \<times> 'v fs" where
  \<comment> \<open>step 2: the loop over the combinations\<close>
  "write_tiles s chunked path prefix [] = (Inr (), s)"
| "write_tiles s chunked path prefix (slice_dict # rest) =
     (case isel chunked slice_dict of
        Inl e \<Rightarrow> (Inl e, s)
      | Inr subset_ds \<Rightarrow>
          write_tiles (to_netcdf s subset_ds (path @ [tile_name prefix slice_dict])) chunked path prefix rest)"

text \<open>
  \<open>tile(ds, path, prefix, chunks, buffer)\<close>. The chunk lengths of the dataset, \<open>ds.chunks\<close>,
  are an argument of their own, \<open>ds_chunks\<close>: a list of dimensions with their chunk lengths,
  in the order in which the mapping is iterated. \<open>Dataset.chunk\<close> belongs to xarray; the
  chunk lengths it produces are given by the parameter \<open>chunk\<close>.
  The result is the outcome together with the file system the call leaves behind.
\<close>

definition tile ::
  "('v dataset \<Rightarrow> (string \<times> nat list) list \<Rightarrow> 'c \<Rightarrow> (string \<times> nat list) list)
   \<Rightarrow> 'v fs \<Rightarrow> 'v dataset \<Rightarrow> (string \<times> nat list) list \<Rightarrow> path \<Rightarrow> string \<Rightarrow> 'c option \<Rightarrow> buffer_spec
   \<Rightarrow> (py_error + unit) \<times> 'v fs" where
  "tile chunk s ds ds_chunks path prefix chunks buffer =
     (if isfile s path then (Inl (ValueError ''`path` cannot be a file!''), s)
      else
        (case (if \<not> isdir s path then makedirs s path else Inr s) of
           Inl e \<Rightarrow> (Inl e, s)
         | Inr s1 \<Rightarrow>
             let chunked_chunks = (case chunks of None \<Rightarrow> ds_chunks | Some c \<Rightarrow> chunk ds ds_chunks c);
                 slices = tile_slices chunked_chunks buffer
             in write_tiles s1 ds path prefix (dict_product slices)))"

subsection \<open>auto\_merge\<close>

text \<open>The first argument of \<open>auto_merge\<close>: a glob expression, a list of paths or a list
  of datasets.\<close>

datatype 'v merge_input = Pattern string | Paths "path list" | Datasets "'v dataset list"

definition first_coord :: "'v dataset \<Rightarrow> string \<Rightarrow> py_error + int" where
  \<comment> \<open>\<open>ds[d].values[0]\<close>\<close>
  "first_coord ds d =
     (case map_of (dims ds) d of
        None \<Rightarrow> Inl (KeyError d)
      | Some [] \<Rightarrow> Inl (IndexError ''index 0 is out of bounds for axis 0 with size 0'')
      | Some (c # _) \<Rightarrow> Inr c)"

fun sequence :: "('e + 'a) list \<Rightarrow> 'e + 'a list" where
  \<comment> \<open>a list comprehension whose elements may raise: the first exception ends it\<close>
  "sequence [] = Inr []"
| "sequence (Inl e # rs) = Inl e"
| "sequence (Inr x # rs) = (case sequence rs of Inl e \<Rightarrow> Inl e | Inr xs \<Rightarrow> Inr (x # xs))"

fun split_dims :: "'v dataset list \<Rightarrow> string list \<Rightarrow> py_error + string list" where
  \<comment> \<open>the comprehension over \<open>datasets[0].dims\<close>: a dimension is kept when the first
     coordinates of the datasets along it take more than one value\<close>
  "split_dims datasets [] = Inr []"
| "split_dims datasets (d # ds) =
     (case sequence (map (\<lambda>x. first_coord x d) datasets) of
        Inl e \<Rightarrow> Inl e
      | Inr cs \<Rightarrow>
          (case split_dims datasets ds of
             Inl e \<Rightarrow> Inl e
           | Inr r \<Rightarrow> Inr (if length (remdups cs) > 1 then d # r else r)))"

definition key_of :: "string list \<Rightarrow> 'v dataset \<Rightarrow> int list" where
  \<comment> \<open>\<open>tuple(ds[d].values[0] for d in ds)\<close>, after \<open>split_dims\<close> has read the same values\<close>
  "key_of ds x = map (\<lambda>d. case first_coord x d of Inr c \<Rightarrow> c | Inl _ \<Rightarrow> 0) ds"

function groupby :: "('a \<Rightarrow> 'k) \<Rightarrow> 'a list \<Rightarrow> 'a list list" where
  \<comment> \<open>the groups of \<open>itertools.groupby\<close>: maximal runs of consecutive elements with equal keys\<close>
  "groupby key [] = []"
| "groupby key (x # xs) =
     (x # takeWhile (\<lambda>y. key y = key x) xs) # groupby key (dropWhile (\<lambda>y. key y = key x) xs)"
  by pat_completeness auto
termination
  by (relation "measure (\<lambda>(key, xs). length xs)") (auto simp: length_dropWhile_le less_Suc_eq_le)

definition argmin :: "int list \<Rightarrow> nat" where
  \<comment> \<open>\<open>np.argmin\<close> of a sequence that is not empty: the first index of the least value\<close>
  "argmin xs = index_of (Min (set xs)) xs"

definition detect_buf :: "'v dataset \<Rightarrow> 'v dataset \<Rightarrow> string \<Rightarrow> py_error + int" where
  \<comment> \<open>the overlap computed from the first two fragments of a group\<close>
  "detect_buf g0 g1 concat_dim =
     (case (coords_of g0 concat_dim, coords_of g1 concat_dim) of
        ([], _) \<Rightarrow> Inl (IndexError ''index -1 is out of bounds for axis 0 with size 0'')
      | (_, []) \<Rightarrow> Inl (ValueError ''attempt to get argmin of an empty sequence'')
      | (c0, c1) \<Rightarrow>
          let diff = map (\<lambda>c. c - last c0) c1
          in Inr ((int (argmin (map abs diff)) + 1) div 2))"

fun resolve_buf ::
  "buffer_spec \<Rightarrow> (string \<times> int) list \<Rightarrow> string \<Rightarrow> 'v dataset list
     \<Rightarrow> py_error + (int \<times> (string \<times> int) list)" where
  \<comment> \<open>the value of \<open>_buf\<close> for a group, and the cache \<open>buf_cache\<close> afterwards\<close>
  "resolve_buf BufAuto buf_cache concat_dim grp =
     (case map_of buf_cache concat_dim of
        Some b \<Rightarrow> Inr (b, buf_cache)
      | None \<Rightarrow>
          (case grp of
             g0 # g1 # _ \<Rightarrow>
               (case detect_buf g0 g1 concat_dim of
                  Inl e \<Rightarrow> Inl e
                | Inr b \<Rightarrow> Inr (b, AList.update concat_dim b buf_cache))
           | _ \<Rightarrow> Inl (IndexError ''list index out of range'')))"
| "resolve_buf (BufInt b) buf_cache concat_dim grp = Inr (b, buf_cache)"
| "resolve_buf (BufDict d) buf_cache concat_dim grp =
     Inr (case map_of d concat_dim of Some b \<Rightarrow> b | None \<Rightarrow> 0, buf_cache)"
| "resolve_buf BufOther buf_cache concat_dim grp = Inr (0, buf_cache)"

definition trim_group :: "int \<Rightarrow> string \<Rightarrow> 'v dataset list \<Rightarrow> py_error + 'v dataset list" where
  \<comment> \<open>``Apply buffer'': the new value of \<open>group\<close>\<close>
  "trim_group buf concat_dim grp =
     (if buf > 0 then
        let idx_first = [(concat_dim, Slice None (Some (- buf)))];
            idx_middle = [(concat_dim, Slice (Some buf) (Some (- buf)))];
            idx_end = [(concat_dim, Slice (Some buf) None)]
        in sequence ([isel (hd grp) idx_first]
                     @ map (\<lambda>x. isel x idx_middle) (butlast (tl grp))
                     @ [isel (last grp) idx_end])
      else Inr grp)"

fun lift_py :: "py_error + 'a \<Rightarrow> merge_error + 'a" where
  "lift_py (Inl e) = Inl (Py e)"
| "lift_py (Inr x) = Inr x"

fun combine_groups ::
  "buffer_spec \<Rightarrow> (string \<times> int) list \<Rightarrow> string \<Rightarrow> 'v dataset list list
     \<Rightarrow> merge_error + ('v dataset list \<times> (string \<times> int) list)" where
  \<comment> \<open>the loop over the groups; \<open>merged\<close> is returned in order\<close>
  "combine_groups buffer buf_cache concat_dim [] = Inr ([], buf_cache)"
| "combine_groups buffer buf_cache concat_dim (grp # rest) =
     (case resolve_buf buffer buf_cache concat_dim grp of
        Inl e \<Rightarrow> Inl (Py e)
      | Inr (buf, buf_cache) \<Rightarrow>
          (case trim_group buf concat_dim grp of
             Inl e \<Rightarrow> Inl (Py e)
           | Inr grp \<Rightarrow>
               (case auto_combine grp concat_dim of
                  Inl e \<Rightarrow> Inl e
                | Inr m \<Rightarrow>
                    (case combine_groups buffer buf_cache concat_dim rest of
                       Inl e \<Rightarrow> Inl e
                     | Inr (merged, buf_cache) \<Rightarrow> Inr (m # merged, buf_cache)))))"

definition combine_along_last_dim ::
  "buffer_spec \<Rightarrow> (string \<times> int) list \<Rightarrow> 'v dataset list
     \<Rightarrow> merge_error + ('v dataset list \<times> (string \<times> int) list)" where
  \<comment> \<open>\<open>_combine_along_last_dim\<close>, for a list that is not empty\<close>
  "combine_along_last_dim buffer buf_cache datasets =
     (case split_dims datasets (map fst (dims (hd datasets))) of
        Inl e \<Rightarrow> Inl (Py e)
      | Inr sd \<Rightarrow>
          if sd = [] then Inl (Py (IndexError ''list index out of range''))
          else
            let concat_dim = last sd;
                sorted_ds = sort_key (key_of sd) datasets;
                groups = groupby (key_of (butlast sd)) sorted_ds
            in combine_groups buffer buf_cache concat_dim groups)"

text \<open>The \<open>while\<close> loop need not end (two fragments that differ on two dimensions and
  share no row are regrouped into themselves for ever), so its result is an option:
  \<open>None\<close> is a loop that does not return.\<close>

partial_function (option) merge_loop ::
  "buffer_spec \<Rightarrow> (string \<times> int) list \<Rightarrow> 'v dataset list \<Rightarrow> (merge_error + 'v dataset) option" where
  "merge_loop buffer buf_cache merged =
     (if length merged > 1 then
        (case combine_along_last_dim buffer buf_cache merged of
           Inl e \<Rightarrow> Some (Inl e)
         | Inr (merged', buf_cache') \<Rightarrow> merge_loop buffer buf_cache' merged')
      else Some (Inr (hd merged)))"

text \<open>\<open>glob.glob\<close> is the parameter \<open>glob\<close>: the paths that match a pattern.\<close>

definition auto_merge ::
  "('v fs \<Rightarrow> string \<Rightarrow> path list) \<Rightarrow> 'v fs \<Rightarrow> 'v merge_input \<Rightarrow> buffer_spec
     \<Rightarrow> (merge_error + 'v dataset) option" where
  "auto_merge glob s datasets buffer =
     (let opened =
        (case datasets of
           Pattern p \<Rightarrow>
             (case glob s p of
                [] \<Rightarrow> Inl (ValueError ''No files found!'')
              | paths \<Rightarrow> sequence (map (open_dataset s) paths))
         | Paths paths \<Rightarrow>
             (case paths of
                [] \<Rightarrow> Inl (ValueError ''No files found!'')
              | _ \<Rightarrow> sequence (map (open_dataset s) paths))
         | Datasets dss \<Rightarrow>
             (case dss of
                [] \<Rightarrow> Inl (ValueError ''No files found!'')
              | _ \<Rightarrow> Inr dss))
      in case opened of
           Inl e \<Rightarrow> Some (Inl (Py e))
         | Inr dss \<Rightarrow> merge_loop buffer [] dss)"

subsection \<open>Reference descriptions and examples for the tiling claims\<close>

text \<open>
  The definitions below are not translations of code. \<open>chunk_starts\<close> gives the cumulative
  start offset of every chunk, \<open>encoded_names\<close> the file names in which every dimension is
  followed by the start of its buffered slice, \<open>max(0, k - b)\<close>.
\<close>

fun chunk_starts :: "int \<Rightarrow> nat list \<Rightarrow> int list" where
  "chunk_starts start [] = []"
| "chunk_starts start (l # ls) = start # chunk_starts (start + int l) ls"

definition encoded_names :: "string \<Rightarrow> (string \<times> nat list) list \<Rightarrow> buffer_spec \<Rightarrow> string list" where
  "encoded_names prefix chunks buffer =
     map (\<lambda>combo. prefix @ ''.''
                    @ join ''.'' (map (\<lambda>(dim, k). dim @ ''_'' @ str_int (max 0 (k - tile_buf buffer dim))) combo)
                    @ ''.nc'')
         (dict_product (map (\<lambda>(dim, chunk_lens). (dim, chunk_starts 0 chunk_lens)) chunks))"

text \<open>An empty file system, the chunk lengths of a dataset that is not re-chunked, and
  a \<open>glob\<close> that matches nothing.\<close>

definition empty_fs :: "'v fs" where
  "empty_fs = \<lparr>nodes = (\<lambda>p. None), trace = []\<rparr>"

definition keep_chunks :: "'v dataset \<Rightarrow> (string \<times> nat list) list \<Rightarrow> unit \<Rightarrow> (string \<times> nat list) list" where
  "keep_chunks ds ds_chunks c = ds_chunks"

definition no_match :: "'v fs \<Rightarrow> string \<Rightarrow> path list" where
  "no_match s p = []"

text \<open>A dataset over one dimension with four values, ascending coordinates.\<close>

definition line4 :: "nat dataset" where
  "line4 = \<lparr>dims = [(''x'', [0, 1, 2, 3])], data = Arr [Scalar 10, Scalar 11, Scalar 12, Scalar 13]\<rparr>"

text \<open>The files written according to a trace, in order.\<close>

fun writes_of :: "fs_event list \<Rightarrow> path list" where
  "writes_of [] = []"
| "writes_of (WriteFile p # es) = p # writes_of es"
| "writes_of (MakeDirs p # es) = writes_of es"


text \<open>Three fragments over \<open>y\<close> and \<open>x\<close>: two in the row \<open>y = 0\<close> and one alone in the row
  \<open>y = 7\<close>, each with two columns.\<close>

definition frag_a :: "nat dataset" where
  "frag_a = \<lparr>dims = [(''y'', [0]), (''x'', [0, 1])], data = Arr [Arr [Scalar 1, Scalar 2]]\<rparr>"

definition frag_b :: "nat dataset" where
  "frag_b = \<lparr>dims = [(''y'', [0]), (''x'', [5, 6])], data = Arr [Arr [Scalar 3, Scalar 4]]\<rparr>"

definition frag_c :: "nat dataset" where
  "frag_c = \<lparr>dims = [(''y'', [7]), (''x'', [0, 1])], data = Arr [Arr [Scalar 5, Scalar 6]]\<rparr>"

definition frag_c3 :: "nat dataset" where
  "frag_c3 = \<lparr>dims = [(''y'', [7]), (''x'', [0, 1, 2])], data = Arr [Arr [Scalar 5, Scalar 6, Scalar 7]]\<rparr>"


definition left14 :: "nat dataset" where
  "left14 = \<lparr>dims = [(''x'', map int [0..<14])], data = Arr (map Scalar [0..<14])\<rparr>"

definition right14 :: "nat dataset" where
  "right14 = \<lparr>dims = [(''x'', map int [6..<20])], data = Arr (map Scalar [6..<20])\<rparr>"





subsection \<open>Reference descriptions for the round trip\<close>

text \<open>
  The definitions below are not translations of code; they describe the fragments of a
  dataset by index ranges. A range \<open>(lo, m)\<close> stands for the \<open>m\<close> entries from index \<open>lo\<close>
  on. \<open>rfrag ds rs\<close> is the part of \<open>ds\<close> that the ranges \<open>rs\<close> select, one range per
  dimension. \<open>shaped ns a\<close> says that the array \<open>a\<close> has the lengths \<open>ns\<close> along its axes.
\<close>

definition range_list :: "nat \<times> nat \<Rightarrow> 'a list \<Rightarrow> 'a list" where
  "range_list r xs = take (snd r) (drop (fst r) xs)"

fun rsel_nd :: "(nat \<times> nat) list \<Rightarrow> 'v nd \<Rightarrow> 'v nd" where
  "rsel_nd [] a = a"
| "rsel_nd (r # rs) (Scalar v) = Scalar v"
| "rsel_nd (r # rs) (Arr xs) = Arr (map (rsel_nd rs) (range_list r xs))"

definition rfrag :: "'v dataset \<Rightarrow> (nat \<times> nat) list \<Rightarrow> 'v dataset" where
  "rfrag ds rs = \<lparr>dims = map (\<lambda>(dc, r). (fst dc, range_list r (snd dc))) (zip (dims ds) rs),
                  data = rsel_nd rs (data ds)\<rparr>"

fun shaped :: "nat list \<Rightarrow> 'v nd \<Rightarrow> bool" where
  "shaped [] a = True"
| "shaped (n # ns) (Scalar v) = False"
| "shaped (n # ns) (Arr xs) = (length xs = n \<and> list_all (shaped ns) xs)"

definition slice_range :: "pyslice \<Rightarrow> nat \<Rightarrow> nat \<times> nat" where
  \<comment> \<open>the range that a slice selects from a sequence of length \<open>n\<close>\<close>
  "slice_range s n = (case slice_bounds s n of (lo, hi) \<Rightarrow> (lo, hi - lo))"

definition compose_range :: "nat \<times> nat \<Rightarrow> nat \<times> nat \<Rightarrow> nat \<times> nat" where
  \<comment> \<open>the range \<open>q\<close> taken from what the range \<open>r\<close> selects\<close>
  "compose_range r q = (fst r + fst q, min (snd q) (snd r - fst q))"

definition opt_range :: "pyslice option \<Rightarrow> nat \<Rightarrow> nat \<times> nat" where
  \<comment> \<open>the range of an optional slice on a sequence of length \<open>n\<close>: no slice selects all\<close>
  "opt_range s n = (case s of None \<Rightarrow> (0, n) | Some sl \<Rightarrow> slice_range sl n)"

definition in_bounds :: "(nat \<times> nat) list \<Rightarrow> nat list \<Rightarrow> bool" where
  "in_bounds rs ns = list_all2 (\<lambda>r n. fst r + snd r \<le> n) rs ns"

text \<open>The start of chunk \<open>i\<close>, the ranges that the buffered slices of \<open>tile\<close> select from a
  dimension whose length is the sum of the chunk lengths, the slice that \<open>auto_merge\<close> applies
  to fragment \<open>i\<close> of a group of \<open>n\<close>, and the fragments of a dataset for a table of chunk
  lengths, one list per dimension, in the order of the dimensions (the last dimension
  varies fastest).\<close>

definition chunk_start :: "nat list \<Rightarrow> nat \<Rightarrow> nat" where
  "chunk_start lens i = sum_list (take i lens)"

definition buffered_ranges :: "nat \<Rightarrow> nat list \<Rightarrow> (nat \<times> nat) list" where
  "buffered_ranges b lens = map (\<lambda>s. slice_range s (sum_list lens)) (chunk_slices 0 (int b) lens)"

definition trim_slice :: "nat \<Rightarrow> nat \<Rightarrow> nat \<Rightarrow> pyslice" where
  "trim_slice b n i =
     (if i = 0 then Slice None (Some (- int b))
      else if i = n - 1 then Slice (Some (int b)) None
      else Slice (Some (int b)) (Some (- int b)))"


text \<open>A list of chunk lengths fits a buffer when it is not empty, no chunk is empty and,
  where there are at least two chunks, every chunk is longer than the buffer.\<close>

definition fits :: "nat \<Rightarrow> nat list \<Rightarrow> bool" where
  "fits b lens = (lens \<noteq> [] \<and> list_all (\<lambda>l. 0 < l) lens \<and> (2 \<le> length lens \<longrightarrow> list_all (\<lambda>l. b < l) lens))"

definition well_formed :: "'v dataset \<Rightarrow> bool" where
  "well_formed ds = (distinct (map fst (dims ds)) \<and> shaped (map (length \<circ> snd) (dims ds)) (data ds))"

section \<open>Properties of nd/algorithm.py\<close>

subsection \<open>Binding against a plain signature\<close>
















lemma find_drop_hd:
  "drop k qs = p # ps \<Longrightarrow> \<not> P p \<Longrightarrow> find P (drop k qs) = find P ps"
  by simp



subsection \<open>The leftover buckets hold a tuple and a dictionary\<close>














subsection \<open>Consequences for extract\_arguments and the wrapper\<close>


lemma expected_binding_all_positional:
  assumes "length qs \<le> length args" "\<forall>p\<in>set qs. \<not> dict_contains kwargs (pname p)"
  shows "expected_binding qs args kwargs =
           Inr (zip (map pname qs) (map Val args)
                @ (if length qs < length args then [(''args'', Tuple (drop (length qs) args))] else [])
                @ (if kwargs \<noteq> [] then [(''kwargs'', Dict kwargs)] else []))"
proof -
  have f: "find (\<lambda>p. dict_contains kwargs (pname p)) qs = None"
    using assms(2) by (simp add: find_None_iff)
  show ?thesis
    using assms(1) f by (simp add: expected_binding_def Let_def min_def keyword_bound_def)
qed

lemma expected_binding_missing:
  assumes "p \<in> set (drop (length args) qs)" "pdefault p = None" "\<not> dict_contains kwargs (pname p)"
  shows "\<exists>msg. expected_binding qs args kwargs = Inl (TypeError msg)"
proof -
  have lt: "length args < length qs" using assms(1) by (cases "length args < length qs") auto
  then have mn: "min (length qs) (length args) = length args" by simp
  have "find (\<lambda>p. pdefault p = None \<and> \<not> dict_contains kwargs (pname p)) (drop (length args) qs) \<noteq> None"
    using assms by (auto simp: find_None_iff)
  then show ?thesis
    unfolding expected_binding_def Let_def mn
    by (auto simp: multiple_values_def missing_required_def split: option.splits)
qed







subsection \<open>The closed form of a binding that succeeds\<close>









subsection \<open>Flattened signatures and the wrapper on plain parameters\<close>




section \<open>Properties of geo/tiling.py\<close>

subsection \<open>The loop of auto\_merge, the file system, the tile names\<close>

lemma merge_loop_single: "length merged \<le> 1 \<Longrightarrow> merge_loop b c merged = Some (Inr (hd merged))"
  by (subst merge_loop.simps) simp

lemma merge_loop_step:
  "length merged > 1 \<Longrightarrow> combine_along_last_dim b c merged = Inr (m', c')
   \<Longrightarrow> merge_loop b c merged = merge_loop b c' m'"
  by (subst merge_loop.simps) simp

lemma merge_loop_error:
  "length merged > 1 \<Longrightarrow> combine_along_last_dim b c merged = Inl e
   \<Longrightarrow> merge_loop b c merged = Some (Inl e)"
  by (subst merge_loop.simps) simp

lemma write_tiles_trace:
  "write_tiles s ds path prefix sds = (r, s') \<Longrightarrow>
   \<exists>done. trace s' = trace s @ map (\<lambda>sd. WriteFile (path @ [tile_name prefix sd])) done
        \<and> (r = Inr () \<longrightarrow> done = sds)
        \<and> (\<forall>q. length q \<le> length path \<longrightarrow> nodes s' q = nodes s q)"
proof (induction sds arbitrary: s)
  case Nil
  then show ?case by (intro exI[of _ "[]"]) simp
next
  case (Cons sd sds)
  show ?case
  proof (cases "isel ds sd")
    case (Inl e)
    with Cons.prems show ?thesis by (intro exI[of _ "[]"]) auto
  next
    case (Inr sub)
    let ?s1 = "to_netcdf s sub (path @ [tile_name prefix sd])"
    from Cons.prems Inr have "write_tiles ?s1 ds path prefix sds = (r, s')" by simp
    from Cons.IH[OF this] obtain dn where
      t: "trace s' = trace ?s1 @ map (\<lambda>sd. WriteFile (path @ [tile_name prefix sd])) dn"
      and d: "r = Inr () \<longrightarrow> dn = sds"
      and n: "\<forall>q. length q \<le> length path \<longrightarrow> nodes s' q = nodes ?s1 q" by blast
    have n1: "\<forall>q. length q \<le> length path \<longrightarrow> nodes ?s1 q = nodes s q"
      by (auto simp: to_netcdf_def)
    show ?thesis
      using t d n n1 by (intro exI[of _ "sd # dn"]) (simp add: to_netcdf_def)
  qed
qed

lemma on_the_way_length: "on_the_way q p \<Longrightarrow> length q \<le> length p"
proof -
  assume "on_the_way q p"
  then have "length (take (length q) p) = length q" by (simp add: on_the_way_def)
  then show ?thesis by simp
qed

lemma makedirs_creates:
  assumes "makedirs s p = Inr s1"
  shows "trace s1 = trace s @ [MakeDirs p]"
    and "\<And>q. on_the_way q p \<Longrightarrow> isdir s1 q"
    and "\<And>q. \<not> on_the_way q p \<Longrightarrow> nodes s1 q = nodes s q"
proof -
  from assms have nf: "\<not> list_ex (\<lambda>n. isfile s (take n p)) [0..<length p]"
    and pn: "nodes s p = None"
    and s1: "s1 = \<lparr>nodes = (\<lambda>q. if on_the_way q p \<and> nodes s q = None then Some Dir else nodes s q),
                trace = trace s @ [MakeDirs p]\<rparr>"
    by (auto simp: makedirs_def split: if_splits)
  show "trace s1 = trace s @ [MakeDirs p]" by (simp add: s1)
  show "\<And>q. \<not> on_the_way q p \<Longrightarrow> nodes s1 q = nodes s q" by (simp add: s1)
  fix q assume q: "on_the_way q p"
  show "isdir s1 q"
  proof (cases "nodes s q")
    case None
    with q show ?thesis by (simp add: s1 isdir_def)
  next
    case (Some nd)
    show ?thesis
    proof (cases nd)
      case Dir
      with Some q show ?thesis by (simp add: s1 isdir_def)
    next
      case (File x)
      from q have qp: "q = take (length q) p" by (simp add: on_the_way_def)
      have "length q \<noteq> length p" using Some pn qp by (metis option.distinct(1) take_all order_refl)
      moreover have "length q \<le> length p" using q by (rule on_the_way_length)
      ultimately have "length q < length p" by simp
      then have "length q \<in> set [0..<length p]" by simp
      with nf have "\<not> isfile s (take (length q) p)" unfolding list_ex_iff by blast
      with qp Some File have False by (simp add: isfile_def)
      then show ?thesis ..
    qed
  qed
qed


lemma writes_of_append: "writes_of (xs @ ys) = writes_of xs @ writes_of ys"
  by (induction xs rule: writes_of.induct) auto

lemma writes_of_map: "writes_of (map WriteFile ps) = ps"
  by (induction ps) auto

lemma chunk_slices_zip:
  "chunk_slices st b lens =
     map (\<lambda>(k, l). Slice (Some (max 0 (k - b))) (Some (k + int l + b))) (zip (chunk_starts st lens) lens)"
  by (induction lens arbitrary: st) auto

lemma chunk_starts_zip: "map fst (zip (chunk_starts st lens) lens) = chunk_starts st lens"
  by (induction lens arbitrary: st) auto

lemma dict_product_map:
  "dict_product (map (\<lambda>(k, xs). (k, map (f k) xs)) d) = map (map (\<lambda>(k, x). (k, f k x))) (dict_product d)"
proof (induction d)
  case Nil
  then show ?case by simp
next
  case (Cons a d)
  obtain k xs where a: "a = (k, xs)" by (cases a)
  show ?case unfolding a
    by (simp add: Cons.IH map_concat comp_def)
qed

lemma tile_names_encoded:
  "map (tile_name prefix) (dict_product (tile_slices chunks buffer)) = encoded_names prefix chunks buffer"
proof -
  let ?Z = "map (\<lambda>(dim, lens). (dim, zip (chunk_starts 0 lens) lens)) chunks"
  let ?F = "\<lambda>dim (k, l). Slice (Some (max 0 (k - tile_buf buffer dim))) (Some (k + int l + tile_buf buffer dim))"
  have ts: "tile_slices chunks buffer = map (\<lambda>(k, xs). (k, map (?F k) xs)) ?Z"
    by (simp add: tile_slices_def chunk_slices_zip split_def)
  have st: "map (\<lambda>(dim, chunk_lens). (dim, chunk_starts 0 chunk_lens)) chunks
          = map (\<lambda>(k, xs). (k, map ((\<lambda>dim. fst) k) xs)) ?Z"
    by (simp add: chunk_starts_zip split_def)
  show ?thesis
    unfolding encoded_names_def ts st dict_product_map
    by (simp add: tile_name_def start_str_def split_def comp_def)
qed


lemma write_tiles_ok_trace:
  assumes "write_tiles s ds path prefix sds = (Inr (), s')"
  shows "trace s' = trace s @ map (\<lambda>sd. WriteFile (path @ [tile_name prefix sd])) sds"
  using write_tiles_trace[OF assms] by auto

subsection \<open>Trimming a group, and the detection of the overlap\<close>

lemma isel_single:
  assumes "dict_contains (dims f) d"
  shows "isel f [(d, sl)] =
     Inr \<lparr>dims = map (\<lambda>(n, c). (n, if n = d then slice_list sl c else c)) (dims f),
          data = isel_nd (map (\<lambda>(n, c). if n = d then Some sl else None) (dims f)) (data f)\<rparr>"
  using assms by (simp add: isel_def split_def cong: map_cong)

lemma slice_list_drop_last:
  assumes "0 < b"
  shows "slice_list (Slice None (Some (- b))) xs = take (length xs - nat b) xs"
proof -
  have "nat (max 0 (int (length xs) - b)) = length xs - nat b" using assms by arith
  with assms show ?thesis by (simp add: slice_list_def slice_bounds_def py_index_def)
qed

lemma slice_list_drop_first: "0 < b \<Longrightarrow> slice_list (Slice (Some b) None) xs = drop (nat b) xs"
  by (simp add: slice_list_def slice_bounds_def py_index_def min_def)

lemma coords_of_map:
  assumes "dict_contains ds d"
  shows "map_of (map (\<lambda>(n, c). (n, if n = d then g c else c)) ds) d = map_option g (map_of ds d)"
  using assms by (induction ds) (auto simp: dict_contains_def)

lemma agree_except_self_slices:
  assumes "distinct (map fst ds)"
  shows "agree_except d \<lparr>dims = map (\<lambda>(n, c). (n, if n = d then g c else c)) ds, data = a\<rparr>
                        \<lparr>dims = map (\<lambda>(n, c). (n, if n = d then h c else c)) ds, data = a'\<rparr>"
proof -
  have "\<And>n c. (n, c) \<in> set ds \<Longrightarrow> n \<noteq> d \<Longrightarrow>
          map_of (map (\<lambda>(n, c). (n, if n = d then h c else c)) ds) n = Some c"
  proof -
    fix n c assume m: "(n, c) \<in> set ds" and nd: "n \<noteq> d"
    have "distinct (map fst (map (\<lambda>(n, c). (n, if n = d then h c else c)) ds))"
      using assms by (simp add: comp_def split_def)
    moreover have "(n, c) \<in> set (map (\<lambda>(n, c). (n, if n = d then h c else c)) ds)"
      using m nd by force
    ultimately show "map_of (map (\<lambda>(n, c). (n, if n = d then h c else c)) ds) n = Some c"
      by (rule map_of_is_SomeI)
  qed
  then show ?thesis
    by (auto simp: agree_except_def list_all_iff comp_def split_def)
qed

lemma coords_of_auto_combine:
  assumes "auto_combine grp d = Inr m"
  shows "coords_of m d = concat (map (\<lambda>f. coords_of f d) grp)"
proof -
  from assms obtain g gs where g: "grp = g # gs" and dc: "dict_contains (dims g) d"
    and m: "m = \<lparr>dims = map (\<lambda>(n, c). (n, if n = d then (\<lambda>_. concat (map (\<lambda>f. coords_of f d) grp)) c else c)) (dims g),
                  data = concat_nd (index_of d (map fst (dims g))) (map data grp)\<rparr>"
    by (auto simp: auto_combine_def split: list.splits if_splits)
  from dc obtain c where "map_of (dims g) d = Some c"
    by (cases "map_of (dims g) d") (auto simp: dict_contains_def map_of_eq_None_iff)
  then show ?thesis
    by (simp add: coords_of_def m coords_of_map[OF dc])
qed










subsection \<open>A pass with one overlap for all groups\<close>














subsection \<open>Fragments as index ranges\<close>

lemma slice_list_range: "slice_list s xs = range_list (slice_range s (length xs)) xs"
  by (simp add: slice_list_def range_list_def slice_range_def split: prod.splits)

lemma range_list_compose: "range_list q (range_list r xs) = range_list (compose_range r q) xs"
proof -
  have "take (snd q) (drop (fst q) (take (snd r) (drop (fst r) xs)))
        = take (snd q) (take (snd r - fst q) (drop (fst q) (drop (fst r) xs)))"
    by (simp only: drop_take)
  also have "\<dots> = take (min (snd q) (snd r - fst q)) (drop (fst r + fst q) xs)"
    by (simp only: take_take drop_drop add.commute[of "fst q" "fst r"])
  finally show ?thesis by (simp only: range_list_def compose_range_def fst_conv snd_conv)
qed

lemma set_range_list: "set (range_list r xs) \<subseteq> set xs"
  unfolding range_list_def by (meson in_set_dropD in_set_takeD subsetI)

lemma length_range_list: "fst r + snd r \<le> length xs \<Longrightarrow> length (range_list r xs) = snd r"
  by (simp add: range_list_def)

lemma range_list_full: "range_list (0, length xs) xs = xs"
  by (simp add: range_list_def)

lemma shaped_Arr: "shaped (n # ns) a \<Longrightarrow> \<exists>xs. a = Arr xs \<and> length xs = n \<and> (\<forall>x\<in>set xs. shaped ns x)"
  by (cases a) (auto simp: list_all_iff)

lemma map_nth_all: "map (\<lambda>j. f (ys ! j)) [0..<length ys] = map f ys"
  by (rule nth_equalityI) auto

lemma rsel_concat:
  assumes "shaped ns a" "k < length rs" "length rs \<le> length ns" "0 < n"
    and "\<And>xs :: 'v nd list. length xs = ns ! k \<Longrightarrow> concat (map (\<lambda>i. range_list (p i) xs) [0..<n]) = range_list q xs"
  shows "concat_nd k (map (\<lambda>i. rsel_nd (rs[k := p i]) (a :: 'v nd)) [0..<n]) = rsel_nd (rs[k := q]) a"
  using assms
proof (induction k arbitrary: rs ns a)
  case 0
  from "0.prems"(2) obtain r rs' where rs: "rs = r # rs'" by (cases rs) auto
  from "0.prems"(3) rs obtain m ns' where ns: "ns = m # ns'" by (cases ns) auto
  from shaped_Arr[OF "0.prems"(1)[unfolded ns]] obtain xs where a: "a = Arr xs" and lx: "length xs = m" by blast
  have c: "concat (map (\<lambda>i. range_list (p i) xs) [0..<n]) = range_list q xs"
    using "0.prems"(5)[of xs] lx ns by simp
  have "concat_nd 0 (map (\<lambda>i. rsel_nd (rs[0 := p i]) a) [0..<n])
      = Arr (concat (map (\<lambda>i. map (rsel_nd rs') (range_list (p i) xs)) [0..<n]))"
    by (simp add: rs a comp_def)
  also have "\<dots> = Arr (map (rsel_nd rs') (concat (map (\<lambda>i. range_list (p i) xs) [0..<n])))"
    by (simp add: map_concat comp_def)
  finally show ?case by (simp add: c rs a)
next
  case (Suc k)
  from Suc.prems(2) obtain r rs' where rs: "rs = r # rs'" by (cases rs) auto
  from Suc.prems(3) rs obtain m ns' where ns: "ns = m # ns'" by (cases ns) auto
  from shaped_Arr[OF Suc.prems(1)[unfolded ns]] obtain xs where a: "a = Arr xs"
    and sx: "\<forall>x\<in>set xs. shaped ns' x" by blast
  define ys where "ys = range_list r xs"
  define as where "as = map (\<lambda>i. rsel_nd (rs[Suc k := p i]) a) [0..<n]"
  have as: "as = map (\<lambda>i. Arr (map (rsel_nd (rs'[k := p i])) ys)) [0..<n]"
    by (simp add: as_def ys_def rs a)
  have "as \<noteq> []" using Suc.prems(4) by (simp add: as)
  then have "hd as = as ! 0" by (simp add: hd_conv_nth)
  then have hd_as: "items (hd as) = map (rsel_nd (rs'[k := p 0])) ys"
    using Suc.prems(4) by (simp add: as)
  have sy: "\<And>j. j < length ys \<Longrightarrow> shaped ns' (ys ! j)"
    using sx set_range_list[of r xs] unfolding ys_def by (meson nth_mem subsetD)
  have inner: "\<And>j. j < length ys \<Longrightarrow>
      concat_nd k (map (\<lambda>a. items a ! j) as) = rsel_nd (rs'[k := q]) (ys ! j)"
  proof -
    fix j assume j: "j < length ys"
    have m: "map (\<lambda>a. items a ! j) as = map (\<lambda>i. rsel_nd (rs'[k := p i]) (ys ! j)) [0..<n]"
      unfolding as using j by (simp add: comp_def)
    have "concat_nd k (map (\<lambda>i. rsel_nd (rs'[k := p i]) (ys ! j)) [0..<n]) = rsel_nd (rs'[k := q]) (ys ! j)"
    proof (rule Suc.IH[OF sy[OF j]])
      show "k < length rs'" using Suc.prems(2) rs by simp
      show "length rs' \<le> length ns'" using Suc.prems(3) rs ns by simp
      show "0 < n" by (rule Suc.prems(4))
      fix xs' :: "'v nd list" assume "length xs' = ns' ! k"
      then show "concat (map (\<lambda>i. range_list (p i) xs') [0..<n]) = range_list q xs'"
        using Suc.prems(5)[of xs'] ns by simp
    qed
    then show "concat_nd k (map (\<lambda>a. items a ! j) as) = rsel_nd (rs'[k := q]) (ys ! j)"
      unfolding m .
  qed
  have "concat_nd (Suc k) as = Arr (map (\<lambda>j. concat_nd k (map (\<lambda>a. items a ! j) as)) [0..<length ys])"
    by (simp add: hd_as)
  also have "\<dots> = Arr (map (\<lambda>j. rsel_nd (rs'[k := q]) (ys ! j)) [0..<length ys])"
    using inner by simp
  also have "\<dots> = Arr (map (rsel_nd (rs'[k := q])) ys)"
    by (simp only: map_nth_all)
  finally have "concat_nd (Suc k) as = Arr (map (rsel_nd (rs'[k := q])) ys)" .
  then show ?case by (simp add: as_def ys_def rs a)
qed

lemma range_list_map: "range_list r (map f xs) = map f (range_list r xs)"
  by (simp add: range_list_def take_map drop_map)

lemma rsel_nd_Scalar: "rsel_nd rs (Scalar v) = Scalar v"
  by (cases rs) auto

lemma rsel_compose:
  "length qs = length rs \<Longrightarrow> rsel_nd qs (rsel_nd rs a) = rsel_nd (map (\<lambda>(r, q). compose_range r q) (zip rs qs)) a"
proof (induction rs arbitrary: qs a)
  case Nil
  then show ?case by simp
next
  case (Cons r rs)
  then obtain q qs' where qs: "qs = q # qs'" and l: "length qs' = length rs" by (cases qs) auto
  show ?case
  proof (cases a)
    case (Scalar v)
    then show ?thesis by (simp add: qs)
  next
    case (Arr xs)
    show ?thesis
      by (simp add: qs Arr range_list_map range_list_compose comp_def Cons.IH[OF l])
  qed
qed

lemma isel_nd_ranges:
  "shaped ns a \<Longrightarrow> length sl \<le> length ns \<Longrightarrow>
   isel_nd sl a = rsel_nd (map (\<lambda>(s, n). opt_range s n) (zip sl ns)) a"
proof (induction sl arbitrary: ns a)
  case Nil
  then show ?case by simp
next
  case (Cons s sl)
  then obtain n ns' where ns: "ns = n # ns'" by (cases ns) auto
  from shaped_Arr[OF Cons.prems(1)[unfolded ns]] obtain xs where a: "a = Arr xs" and lx: "length xs = n"
    and sx: "\<forall>x\<in>set xs. shaped ns' x" by blast
  have l: "length sl \<le> length ns'" using Cons.prems(2) ns by simp
  have ih: "\<And>x. x \<in> set xs \<Longrightarrow> isel_nd sl x = rsel_nd (map (\<lambda>(s, n). opt_range s n) (zip sl ns')) x"
    using Cons.IH[OF _ l] sx by blast
  have ih': "map (isel_nd sl) ys = map (rsel_nd (map (\<lambda>(s, n). opt_range s n) (zip sl ns'))) ys"
    if "set ys \<subseteq> set xs" for ys
    using that ih by (intro map_cong refl) auto
  show ?case
  proof (cases s)
    case None
    have "range_list (0, n) xs = xs" using range_list_full[of xs] lx by simp
    then show ?thesis
      using ih'[of xs] by (simp add: ns a None opt_range_def)
  next
    case (Some sl')
    have sub: "set (slice_list sl' xs) \<subseteq> set xs"
      unfolding slice_list_range by (rule set_range_list)
    have "range_list (slice_range sl' n) xs = slice_list sl' xs"
      using slice_list_range[of sl' xs] lx by simp
    then show ?thesis
      using ih'[OF sub] by (simp add: ns a Some opt_range_def)
  qed
qed

lemma shaped_rsel:
  "shaped ns a \<Longrightarrow> in_bounds rs ns \<Longrightarrow> shaped (map snd rs) (rsel_nd rs a)"
proof (induction rs arbitrary: ns a)
  case Nil
  then show ?case by simp
next
  case (Cons r rs)
  then obtain n ns' where ns: "ns = n # ns'" and b: "fst r + snd r \<le> n" and ib: "in_bounds rs ns'"
    by (cases ns) (auto simp: in_bounds_def)
  from shaped_Arr[OF Cons.prems(1)[unfolded ns]] obtain xs where a: "a = Arr xs" and lx: "length xs = n"
    and sx: "\<forall>x\<in>set xs. shaped ns' x" by blast
  have "\<And>x. x \<in> set (range_list r xs) \<Longrightarrow> shaped (map snd rs) (rsel_nd rs x)"
    using Cons.IH[OF _ ib] sx set_range_list[of r xs] by blast
  then show ?case
    using b lx by (simp add: a length_range_list list_all_iff)
qed

lemma rsel_full:
  "shaped ns a \<Longrightarrow> rsel_nd (map (\<lambda>n. (0, n)) ns) a = a"
proof (induction ns arbitrary: a)
  case Nil
  then show ?case by simp
next
  case (Cons n ns)
  from shaped_Arr[OF Cons.prems] obtain xs where a: "a = Arr xs" and lx: "length xs = n"
    and sx: "\<forall>x\<in>set xs. shaped ns x" by blast
  have "map (rsel_nd (map (\<lambda>n. (0, n)) ns)) xs = xs"
    using Cons.IH sx by (simp add: map_idI)
  moreover have "range_list (0, n) xs = xs" using range_list_full[of xs] lx by simp
  ultimately show ?case by (simp add: a)
qed

lemma dims_rfrag_names:
  "length rs = length (dims ds) \<Longrightarrow> map fst (dims (rfrag ds rs)) = map fst (dims ds)"
  by (rule nth_equalityI) (auto simp: rfrag_def)

lemma dict_contains_names: "dict_contains d k = (k \<in> set (map fst d))"
  by (simp add: dict_contains_def)

lemma compose_range_all: "compose_range r (0, snd r) = r"
  by (simp add: compose_range_def)

lemma slice_of_range:
  assumes "fst r + snd r \<le> length c"
  shows "slice_list s (range_list r c) = range_list (compose_range r (slice_range s (snd r))) c"
  unfolding slice_list_range length_range_list[OF assms] range_list_compose ..

lemma isel_rfrag:
  assumes sh: "shaped (map (length \<circ> snd) (dims ds)) (data ds)"
    and len: "length rs = length (dims ds)"
    and ib: "in_bounds rs (map (length \<circ> snd) (dims ds))"
    and keys: "\<forall>kv \<in> set sd. dict_contains (dims ds) (fst kv)"
  shows "isel (rfrag ds rs) sd
       = Inr (rfrag ds (map (\<lambda>(dc, r). compose_range r (opt_range (map_of sd (fst dc)) (snd r)))
                            (zip (dims ds) rs)))"
proof -
  let ?n = "length (dims ds)"
  let ?rs' = "map (\<lambda>(dc, r). compose_range r (opt_range (map_of sd (fst dc)) (snd r))) (zip (dims ds) rs)"
  have bnd: "\<And>j. j < ?n \<Longrightarrow> fst (rs ! j) + snd (rs ! j) \<le> length (snd (dims ds ! j))"
    using ib len by (auto simp: in_bounds_def list_all2_conv_all_nth)
  have nm: "map fst (dims (rfrag ds rs)) = map fst (dims ds)" by (rule dims_rfrag_names[OF len])
  have dc_eq: "\<And>k. dict_contains (dims (rfrag ds rs)) k = dict_contains (dims ds) k"
    unfolding dict_contains_names nm ..
  have ok: "\<not> list_ex (\<lambda>kv. \<not> dict_contains (dims (rfrag ds rs)) (fst kv)) sd"
    using keys by (simp add: list_ex_iff dc_eq)
  have d: "map (\<lambda>(d, c). (d, case map_of sd d of None \<Rightarrow> c | Some s \<Rightarrow> slice_list s c)) (dims (rfrag ds rs))
         = dims (rfrag ds ?rs')"
  proof (rule nth_equalityI)
    show "length (map (\<lambda>(d, c). (d, case map_of sd d of None \<Rightarrow> c | Some s \<Rightarrow> slice_list s c)) (dims (rfrag ds rs)))
        = length (dims (rfrag ds ?rs'))" using len by (simp add: rfrag_def)
  next
    fix j assume "j < length (map (\<lambda>(d, c). (d, case map_of sd d of None \<Rightarrow> c | Some s \<Rightarrow> slice_list s c)) (dims (rfrag ds rs)))"
    then have j: "j < ?n" using len by (simp add: rfrag_def)
    obtain d c where dc: "dims ds ! j = (d, c)" by (cases "dims ds ! j")
    have b: "fst (rs ! j) + snd (rs ! j) \<le> length c" using bnd[OF j] dc by simp
    have l: "dims (rfrag ds rs) ! j = (d, range_list (rs ! j) c)"
      using j len dc by (simp add: rfrag_def)
    have r: "dims (rfrag ds ?rs') ! j
           = (d, range_list (compose_range (rs ! j) (opt_range (map_of sd d) (snd (rs ! j)))) c)"
      using j len dc by (simp add: rfrag_def)
    have jl: "j < length (dims (rfrag ds rs))" using j len by (simp add: rfrag_def)
    have "(case map_of sd d of None \<Rightarrow> range_list (rs ! j) c | Some s \<Rightarrow> slice_list s (range_list (rs ! j) c))
        = range_list (compose_range (rs ! j) (opt_range (map_of sd d) (snd (rs ! j)))) c"
      by (cases "map_of sd d") (simp_all add: opt_range_def compose_range_all slice_of_range[OF b])
    then show "map (\<lambda>(d, c). (d, case map_of sd d of None \<Rightarrow> c | Some s \<Rightarrow> slice_list s c)) (dims (rfrag ds rs)) ! j
        = dims (rfrag ds ?rs') ! j"
      unfolding r nth_map[OF jl] l by simp
  qed
  have shf: "shaped (map snd rs) (rsel_nd rs (data ds))" by (rule shaped_rsel[OF sh ib])
  let ?sl = "map (\<lambda>(d, c). map_of sd d) (dims (rfrag ds rs))"
  have "isel_nd ?sl (rsel_nd rs (data ds))
      = rsel_nd (map (\<lambda>(s, n). opt_range s n) (zip ?sl (map snd rs))) (rsel_nd rs (data ds))"
    by (rule isel_nd_ranges[OF shf]) (simp add: rfrag_def len)
  also have "\<dots> = rsel_nd (map (\<lambda>(r, q). compose_range r q)
                        (zip rs (map (\<lambda>(s, n). opt_range s n) (zip ?sl (map snd rs))))) (data ds)"
    by (rule rsel_compose) (simp add: rfrag_def len)
  also have "map (\<lambda>(r, q). compose_range r q) (zip rs (map (\<lambda>(s, n). opt_range s n) (zip ?sl (map snd rs)))) = ?rs'"
  proof (rule nth_equalityI)
    show "length (map (\<lambda>(r, q). compose_range r q) (zip rs (map (\<lambda>(s, n). opt_range s n) (zip ?sl (map snd rs)))))
        = length ?rs'" using len by (simp add: rfrag_def)
  next
    fix j assume "j < length (map (\<lambda>(r, q). compose_range r q) (zip rs (map (\<lambda>(s, n). opt_range s n) (zip ?sl (map snd rs)))))"
    then have j: "j < ?n" using len by (simp add: rfrag_def)
    obtain d c where dc: "dims ds ! j = (d, c)" by (cases "dims ds ! j")
    have l: "dims (rfrag ds rs) ! j = (d, range_list (rs ! j) c)"
      using j len dc by (simp add: rfrag_def)
    have jl: "j < length (dims (rfrag ds rs))" using j len by (simp add: rfrag_def)
    have "?sl ! j = map_of sd d" unfolding nth_map[OF jl] l by simp
    then show "map (\<lambda>(r, q). compose_range r q) (zip rs (map (\<lambda>(s, n). opt_range s n) (zip ?sl (map snd rs)))) ! j
        = ?rs' ! j"
      using j len dc jl by simp
  qed
  finally have dt: "isel_nd ?sl (data (rfrag ds rs)) = data (rfrag ds ?rs')"
    by (simp add: rfrag_def)
  show ?thesis
    unfolding isel_def using ok d dt by simp
qed

subsection \<open>The ranges of buffered chunks, and what trimming leaves of them\<close>

lemma chunk_slices_nth:
  "i < length lens \<Longrightarrow>
   chunk_slices st b lens ! i
     = Slice (Some (max 0 (st + int (chunk_start lens i) - b)))
             (Some (st + int (chunk_start lens i) + int (lens ! i) + b))"
proof (induction lens arbitrary: st i)
  case Nil
  then show ?case by simp
next
  case (Cons l lens)
  show ?case
  proof (cases i)
    case 0
    then show ?thesis by (simp add: chunk_start_def)
  next
    case (Suc i')
    with Cons.prems have "i' < length lens" by simp
    from Cons.IH[OF this, of "st + int l"] Suc show ?thesis
      by (simp add: chunk_start_def algebra_simps)
  qed
qed

lemma length_chunk_slices: "length (chunk_slices st b lens) = length lens"
  by (induction lens arbitrary: st) auto

lemma length_buffered_ranges: "length (buffered_ranges b lens) = length lens"
  by (simp add: buffered_ranges_def length_chunk_slices)

lemma chunk_start_Suc: "i < length lens \<Longrightarrow> chunk_start lens (Suc i) = chunk_start lens i + lens ! i"
  by (simp add: chunk_start_def take_Suc_conv_app_nth)

lemma chunk_start_le: "chunk_start lens i \<le> sum_list lens"
proof -
  have "sum_list lens = sum_list (take i lens) + sum_list (drop i lens)"
    by (metis append_take_drop_id sum_list_append)
  then show ?thesis by (simp add: chunk_start_def)
qed

lemma chunk_start_mono: "i \<le> j \<Longrightarrow> chunk_start lens i \<le> chunk_start lens j"
proof -
  assume "i \<le> j"
  then have "take j lens = take i lens @ take (j - i) (drop i lens)"
    by (metis le_add_diff_inverse take_add)
  then show ?thesis by (simp add: chunk_start_def)
qed

lemma buffered_ranges_nth:
  assumes "i < length lens"
  shows "buffered_ranges b lens ! i
       = (chunk_start lens i - b,
          min (sum_list lens) (chunk_start lens i + lens ! i + b) - (chunk_start lens i - b))"
proof -
  let ?N = "sum_list lens" and ?s = "chunk_start lens i"
  have lo: "py_index ?N (max 0 (int ?s - int b)) = ?s - b"
  proof -
    have "nat (max 0 (int ?s - int b)) = ?s - b" by arith
    moreover have "?s - b \<le> ?N" using chunk_start_le[of lens i] by arith
    ultimately show ?thesis by (simp add: py_index_def)
  qed
  have hi: "py_index ?N (int ?s + int (lens ! i) + int b) = min ?N (?s + lens ! i + b)"
  proof -
    have "nat (int ?s + int (lens ! i) + int b) = ?s + lens ! i + b" by arith
    then show ?thesis by (simp add: py_index_def)
  qed
  show ?thesis
    using assms lo hi
    by (simp add: buffered_ranges_def length_chunk_slices chunk_slices_nth slice_range_def slice_bounds_def)
qed

lemma concat_pieces:
  "concat (map (\<lambda>i. take (lens ! i) (drop (st + chunk_start lens i) xs)) [0..<length lens])
     = take (sum_list lens) (drop st xs)"
proof (induction lens arbitrary: st)
  case Nil
  then show ?case by simp
next
  case (Cons l lens)
  have "map (\<lambda>i. take ((l # lens) ! i) (drop (st + chunk_start (l # lens) i) xs)) [0..<length (l # lens)]
      = take l (drop st xs) # map (\<lambda>i. take (lens ! i) (drop ((st + l) + chunk_start lens i) xs)) [0..<length lens]"
  proof -
    have "[0..<length (l # lens)] = 0 # map Suc [0..<length lens]"
      by (simp add: upt_conv_Cons map_Suc_upt del: upt_Suc)
    then show ?thesis by (simp add: chunk_start_def add.assoc comp_def del: upt_Suc)
  qed
  then have "concat (map (\<lambda>i. take ((l # lens) ! i) (drop (st + chunk_start (l # lens) i) xs)) [0..<length (l # lens)])
      = take l (drop st xs) @ take (sum_list lens) (drop (st + l) xs)"
    using Cons.IH[of "st + l"] by simp
  also have "\<dots> = take (l + sum_list lens) (drop st xs)"
    by (simp add: take_add add.commute)
  finally show ?case by simp
qed

lemma concat_chunk_ranges:
  "concat (map (\<lambda>i. range_list (chunk_start lens i, lens ! i) xs) [0..<length lens])
     = range_list (0, sum_list lens) xs"
  using concat_pieces[of lens 0 xs] by (simp add: range_list_def)


lemma chunk_start_end: "chunk_start lens (length lens) = sum_list lens"
  by (simp add: chunk_start_def)

lemma chunk_end_le:
  assumes "i < length lens"
  shows "chunk_start lens i + lens ! i \<le> sum_list lens"
  using chunk_start_le[of lens "Suc i"] chunk_start_Suc[OF assms] by simp

lemma buffered_range_bounds:
  assumes "i < length lens" "0 < lens ! i"
  shows "fst (buffered_ranges b lens ! i) + snd (buffered_ranges b lens ! i) \<le> sum_list lens"
    and "0 < snd (buffered_ranges b lens ! i)"
  using chunk_end_le[OF assms(1)] assms(2) unfolding buffered_ranges_nth[OF assms(1)] by auto

lemma slice_range_first: "0 < b \<Longrightarrow> slice_range (Slice None (Some (- int b))) m = (0, m - b)"
proof -
  assume "0 < b"
  moreover have "nat (max 0 (int m - int b)) = m - b" by arith
  ultimately show ?thesis by (simp add: slice_range_def slice_bounds_def py_index_def)
qed

lemma slice_range_middle:
  "0 < b \<Longrightarrow> slice_range (Slice (Some (int b)) (Some (- int b))) m = (min m b, (m - b) - min m b)"
proof -
  assume "0 < b"
  moreover have "nat (max 0 (int m - int b)) = m - b" by arith
  ultimately show ?thesis by (simp add: slice_range_def slice_bounds_def py_index_def)
qed

lemma slice_range_last: "slice_range (Slice (Some (int b)) None) m = (min m b, m - min m b)"
  by (simp add: slice_range_def slice_bounds_def py_index_def)

lemma trimmed_range:
  assumes i: "i < length lens" and n: "2 \<le> length lens" and b: "0 < b"
    and l: "\<And>j. j < length lens \<Longrightarrow> b < lens ! j"
  shows "compose_range (buffered_ranges b lens ! i)
           (slice_range (trim_slice b (length lens) i) (snd (buffered_ranges b lens ! i)))
       = (chunk_start lens i, lens ! i)"
proof -
  let ?n = "length lens" and ?N = "sum_list lens" and ?s = "chunk_start lens i" and ?l = "lens ! i"
  have li: "b < ?l" by (rule l[OF i])
  have e: "?s + ?l \<le> ?N" by (rule chunk_end_le[OF i])
  have R: "buffered_ranges b lens ! i = (?s - b, min ?N (?s + ?l + b) - (?s - b))"
    by (rule buffered_ranges_nth[OF i])
  have s1: "b < ?s" if "0 < i"
  proof -
    have "chunk_start lens 1 \<le> ?s" using that by (intro chunk_start_mono) simp
    moreover have "chunk_start lens 1 = lens ! 0"
    proof (cases lens)
      case Nil
      with n show ?thesis by simp
    next
      case (Cons a as)
      then show ?thesis by (simp add: chunk_start_def)
    qed
    moreover have "b < lens ! 0"
    proof (rule l)
      show "0 < length lens" using n by linarith
    qed
    ultimately show ?thesis by simp
  qed
  have nx: "?s + ?l + b \<le> ?N" if "i < ?n - 1"
  proof -
    have si: "Suc i < ?n" using that by simp
    have "chunk_start lens (Suc i) + lens ! Suc i \<le> ?N" by (rule chunk_end_le[OF si])
    moreover have "b < lens ! Suc i" by (rule l[OF si])
    ultimately show ?thesis using chunk_start_Suc[OF i] by simp
  qed
  have ls: "?s + ?l = ?N" if "i = ?n - 1"
  proof -
    have "Suc i = ?n" using that i by simp
    then show ?thesis using chunk_start_Suc[OF i] chunk_start_end[of lens] by simp
  qed
  consider (first) "i = 0" | (last) "0 < i" "i = ?n - 1" | (middle) "0 < i" "i < ?n - 1"
    using i by linarith
  then show ?thesis
  proof cases
    case first
    then have z: "?s = 0" by (simp add: chunk_start_def)
    have "i < ?n - 1" using first n by linarith
    from nx[OF this] have m: "min ?N (?l + b) = ?l + b" using z by simp
    have t: "trim_slice b ?n i = Slice None (Some (- int b))" using first by (simp add: trim_slice_def)
    have R0: "buffered_ranges b lens ! i = (0, ?l + b)" unfolding R z using m by simp
    show ?thesis
      unfolding R0 t snd_conv z slice_range_first[OF b]
      by (simp add: compose_range_def)
  next
    case last
    have m: "min ?N (?s + ?l + b) = ?s + ?l" using ls[OF last(2)] by simp
    have t: "trim_slice b ?n i = Slice (Some (int b)) None" using last by (simp add: trim_slice_def)
    have sb: "b < ?s" by (rule s1[OF last(1)])
    have w: "?s + ?l - (?s - b) = ?l + b" using sb by simp
    have R1: "buffered_ranges b lens ! i = (?s - b, ?l + b)" unfolding R m w ..
    show ?thesis
      unfolding R1 t snd_conv slice_range_last using sb
      by (simp add: compose_range_def min_def)
  next
    case middle
    have m: "min ?N (?s + ?l + b) = ?s + ?l + b" using nx[OF middle(2)] by simp
    have t: "trim_slice b ?n i = Slice (Some (int b)) (Some (- int b))"
      using middle by (simp add: trim_slice_def)
    have sb: "b < ?s" by (rule s1[OF middle(1)])
    have w: "?s + ?l + b - (?s - b) = ?l + b + b" using sb by simp
    have R2: "buffered_ranges b lens ! i = (?s - b, ?l + b + b)" unfolding R m w ..
    show ?thesis
      unfolding R2 t snd_conv slice_range_middle[OF b] using sb
      by (simp add: compose_range_def min_def)
  qed
qed

lemma untrimmed_range:
  assumes i: "i < length lens"
  shows "buffered_ranges 0 lens ! i = (chunk_start lens i, lens ! i)"
  using chunk_end_le[OF i] unfolding buffered_ranges_nth[OF i] by simp

lemma buffered_ranges_single: "buffered_ranges b [l] = [(0, l)]"
  by (rule nth_equalityI) (simp_all add: length_buffered_ranges buffered_ranges_nth chunk_start_def)

lemma length_dims_rfrag: "length rs = length (dims ds) \<Longrightarrow> length (dims (rfrag ds rs)) = length (dims ds)"
  by (simp add: rfrag_def)

lemma dims_rfrag_nth:
  "length rs = length (dims ds) \<Longrightarrow> j < length (dims ds) \<Longrightarrow>
   dims (rfrag ds rs) ! j = (fst (dims ds ! j), range_list (rs ! j) (snd (dims ds ! j)))"
  by (simp add: rfrag_def)

lemma map_of_rfrag:
  assumes "distinct (map fst (dims ds))" "length rs = length (dims ds)" "j < length (dims ds)"
  shows "map_of (dims (rfrag ds rs)) (fst (dims ds ! j)) = Some (range_list (rs ! j) (snd (dims ds ! j)))"
proof -
  have d: "distinct (map fst (dims (rfrag ds rs)))"
    unfolding dims_rfrag_names[OF assms(2)] by (rule assms(1))
  have "dims (rfrag ds rs) ! j \<in> set (dims (rfrag ds rs))"
    using assms(2,3) by (intro nth_mem) (simp add: length_dims_rfrag)
  then have "(fst (dims ds ! j), range_list (rs ! j) (snd (dims ds ! j))) \<in> set (dims (rfrag ds rs))"
    unfolding dims_rfrag_nth[OF assms(2,3)] .
  then show ?thesis using map_of_eq_Some_iff[OF d] by blast
qed

lemma coords_of_rfrag:
  assumes "distinct (map fst (dims ds))" "length rs = length (dims ds)" "j < length (dims ds)"
  shows "coords_of (rfrag ds rs) (fst (dims ds ! j)) = range_list (rs ! j) (snd (dims ds ! j))"
  by (simp add: coords_of_def map_of_rfrag[OF assms])

lemma range_list_hd:
  "0 < snd r \<Longrightarrow> fst r + snd r \<le> length xs \<Longrightarrow> \<exists>ys. range_list r xs = xs ! fst r # ys"
proof -
  assume a: "0 < snd r" "fst r + snd r \<le> length xs"
  then have "fst r < length xs" by simp
  then have "drop (fst r) xs = xs ! fst r # drop (Suc (fst r)) xs" by (simp add: Cons_nth_drop_Suc)
  moreover obtain m where "snd r = Suc m" using a(1) by (cases "snd r") auto
  ultimately show ?thesis by (simp add: range_list_def)
qed

lemma first_coord_rfrag:
  assumes "distinct (map fst (dims ds))" "length rs = length (dims ds)" "j < length (dims ds)"
    and "0 < snd (rs ! j)" "fst (rs ! j) + snd (rs ! j) \<le> length (snd (dims ds ! j))"
  shows "first_coord (rfrag ds rs) (fst (dims ds ! j)) = Inr (snd (dims ds ! j) ! fst (rs ! j))"
proof -
  from range_list_hd[OF assms(4,5)] obtain ys where
    "range_list (rs ! j) (snd (dims ds ! j)) = snd (dims ds ! j) ! fst (rs ! j) # ys" ..
  then show ?thesis by (simp add: first_coord_def map_of_rfrag[OF assms(1,2,3)])
qed

lemma rfrag_full:
  assumes "well_formed ds"
  shows "rfrag ds (map (\<lambda>dc. (0, length (snd dc))) (dims ds)) = ds"
proof -
  have sh: "shaped (map (length \<circ> snd) (dims ds)) (data ds)" using assms by (simp add: well_formed_def)
  have e: "map (\<lambda>dc. (0::nat, length (snd dc))) (dims ds) = map (\<lambda>n. (0, n)) (map (length \<circ> snd) (dims ds))"
    by (simp add: comp_def)
  have d: "rsel_nd (map (\<lambda>dc. (0, length (snd dc))) (dims ds)) (data ds) = data ds"
    unfolding e by (rule rsel_full[OF sh])
  have c: "map (\<lambda>(dc, r). (fst dc, range_list r (snd dc))) (zip (dims ds) (map (\<lambda>dc. (0, length (snd dc))) (dims ds)))
         = dims ds"
    by (rule nth_equalityI) (simp_all add: range_list_full)
  show ?thesis unfolding rfrag_def d c by simp
qed

lemma isel_rfrag_one:
  assumes wf: "well_formed ds"
    and len: "length rs = length (dims ds)"
    and ib: "in_bounds rs (map (length \<circ> snd) (dims ds))"
    and m: "m < length (dims ds)"
  shows "isel (rfrag ds rs) [(fst (dims ds ! m), \<sigma>)]
       = Inr (rfrag ds (rs[m := compose_range (rs ! m) (slice_range \<sigma> (snd (rs ! m)))]))"
proof -
  let ?d = "fst (dims ds ! m)"
  have sh: "shaped (map (length \<circ> snd) (dims ds)) (data ds)" and dn: "distinct (map fst (dims ds))"
    using wf by (simp_all add: well_formed_def)
  have keys: "\<forall>kv \<in> set [(?d, \<sigma>)]. dict_contains (dims ds) (fst kv)"
    using m by (simp add: dict_contains_names)
  have "map (\<lambda>(dc, r). compose_range r (opt_range (map_of [(?d, \<sigma>)] (fst dc)) (snd r))) (zip (dims ds) rs)
      = rs[m := compose_range (rs ! m) (slice_range \<sigma> (snd (rs ! m)))]"
  proof (rule nth_equalityI)
    show "length (map (\<lambda>(dc, r). compose_range r (opt_range (map_of [(?d, \<sigma>)] (fst dc)) (snd r))) (zip (dims ds) rs))
        = length (rs[m := compose_range (rs ! m) (slice_range \<sigma> (snd (rs ! m)))])"
      using len by simp
  next
    fix j assume "j < length (map (\<lambda>(dc, r). compose_range r (opt_range (map_of [(?d, \<sigma>)] (fst dc)) (snd r))) (zip (dims ds) rs))"
    then have j: "j < length (dims ds)" using len by simp
    show "map (\<lambda>(dc, r). compose_range r (opt_range (map_of [(?d, \<sigma>)] (fst dc)) (snd r))) (zip (dims ds) rs) ! j
        = rs[m := compose_range (rs ! m) (slice_range \<sigma> (snd (rs ! m)))] ! j"
    proof (cases "j = m")
      case True
      then show ?thesis using j len by (simp add: opt_range_def)
    next
      case False
      have "fst (dims ds ! j) \<noteq> ?d"
        using dn j m False by (simp add: distinct_conv_nth)
      then show ?thesis using j len False by (simp add: opt_range_def compose_range_all)
    qed
  qed
  then show ?thesis using isel_rfrag[OF sh len ib keys] by simp
qed

subsection \<open>Claims about nd/algorithm.py\<close>


text \<open>
  Claim C4. \<open>parallel_apply(ds, dim, jobs)\<close> is to run \<open>apply\<close> over slices of the supplied
  dataset, so that the dataset determines the result. The method hands \<open>self.apply\<close>, \<open>dim\<close>
  and \<open>jobs\<close> to the helper and nothing else: whatever the helper does, two calls that differ
  only in the dataset return the same value.
\<close>

theorem parallel_apply_ignores_dataset:
  "parallel_apply parallel self_apply ds dim jobs = parallel_apply parallel self_apply ds' dim jobs"
  by (simp add: parallel_apply_def)

text \<open>
  Claim C10. For a subclass of \<open>Algorithm\<close> whose \<open>__doc__\<close> is \<open>None\<close>, \<open>wrap_algorithm\<close>
  does not return a callable: the concatenation that builds the docstring of the wrapper
  raises \<open>TypeError\<close>.
\<close>

theorem wrap_algorithm_requires_docstring:
  assumes "is_algorithm_subclass algo" "cls_doc algo = None"
  shows "wrap_algorithm algo name = Inl (TypeError ''must be str, not NoneType'')"
  using assms by (simp add: wrap_algorithm_def)

theorem wrap_algorithm_requires_docstring_witness:
  "is_algorithm_subclass example_algo \<and> cls_doc example_algo = None
   \<and> wrap_algorithm example_algo None = Inl (TypeError ''must be str, not NoneType'')"
proof -
  have h: "is_algorithm_subclass example_algo" "cls_doc example_algo = None"
    by (simp_all add: example_algo_def)
  from wrap_algorithm_requires_docstring[OF h] h show ?thesis by simp
qed








subsection \<open>Claims about tile\<close>

text \<open>
  Claim C8. When the normalized list of fragments is empty, \<open>auto_merge\<close> raises the
  \<open>ValueError\<close> ``No files found!'' (the spec's NotFound): for a glob expression that matches
  no file, for an empty list of paths and for an empty list of datasets.
\<close>

theorem auto_merge_no_files:
  "(glob s p = [] \<longrightarrow> auto_merge glob s (Pattern p) buffer = Some (Inl (Py (ValueError ''No files found!''))))
   \<and> auto_merge glob s (Paths []) buffer = Some (Inl (Py (ValueError ''No files found!'')))
   \<and> auto_merge glob s (Datasets []) buffer = Some (Inl (Py (ValueError ''No files found!'')))"
  by (simp add: auto_merge_def)

theorem auto_merge_no_files_witness:
  "no_match (empty_fs :: nat fs) ''tiles/*.nc'' = []
   \<and> auto_merge no_match (empty_fs :: nat fs) (Pattern ''tiles/*.nc'') BufAuto
       = Some (Inl (Py (ValueError ''No files found!'')))"
  using auto_merge_no_files[of no_match "empty_fs :: nat fs" "''tiles/*.nc''" BufAuto]
  by (simp add: no_match_def)




text \<open>
  Claim C1, as the code has it. The file names that a successful \<open>tile\<close> writes are, in order,
  \<open>encoded_names\<close>: the component for a dimension \<open>d\<close> and a chunk with cumulative start
  \<open>k\<close> is \<open>d_{max(0, k - b)}\<close>, the start of the buffered slice, where \<open>b\<close> is the buffer
  of \<open>d\<close>.
\<close>

theorem tile_names_encode_buffered_start:
  assumes "fst (tile chunk s ds ds_chunks path prefix chunks buffer) = Inr ()"
  shows "writes_of (trace (snd (tile chunk s ds ds_chunks path prefix chunks buffer)))
       = writes_of (trace s)
         @ map (\<lambda>name. path @ [name])
               (encoded_names prefix (case chunks of None \<Rightarrow> ds_chunks | Some c \<Rightarrow> chunk ds ds_chunks c) buffer)"
proof -
  let ?cc = "case chunks of None \<Rightarrow> ds_chunks | Some c \<Rightarrow> chunk ds ds_chunks c"
  let ?sds = "dict_product (tile_slices ?cc buffer)"
  from assms have nf: "\<not> isfile s path" by (auto simp: tile_def)
  obtain s1 where s1: "(if \<not> isdir s path then makedirs s path else Inr s) = Inr s1"
    using assms nf by (cases "if \<not> isdir s path then makedirs s path else Inr s") (auto simp: tile_def)
  have t: "tile chunk s ds ds_chunks path prefix chunks buffer = write_tiles s1 ds path prefix ?sds"
    using nf s1 by (simp add: tile_def Let_def)
  obtain s' where w: "write_tiles s1 ds path prefix ?sds = (Inr (), s')"
    using assms t by (cases "write_tiles s1 ds path prefix ?sds") auto
  have w1: "writes_of (trace s1) = writes_of (trace s)"
    using s1 makedirs_creates(1)[of s path s1] by (auto simp: writes_of_append split: if_splits)
  have "writes_of (trace s') = writes_of (trace s1) @ map (\<lambda>sd. path @ [tile_name prefix sd]) ?sds"
    unfolding write_tiles_ok_trace[OF w] writes_of_append
    using writes_of_map[of "map (\<lambda>sd. path @ [tile_name prefix sd]) ?sds"] by (simp add: comp_def)
  also have "map (\<lambda>sd. path @ [tile_name prefix sd]) ?sds
           = map (\<lambda>name. path @ [name]) (map (tile_name prefix) ?sds)" by (simp add: comp_def)
  finally show ?thesis unfolding t w tile_names_encoded w1 by simp
qed

theorem tile_names_encode_buffered_start_witness:
  "fst (tile keep_chunks empty_fs line4 [(''x'', [2, 2])] [''out''] ''part'' None (BufInt 1)) = Inr ()
   \<and> writes_of (trace (snd (tile keep_chunks empty_fs line4 [(''x'', [2, 2])] [''out''] ''part'' None (BufInt 1))))
       = [[''out'', ''part.x_0.nc''], [''out'', ''part.x_1.nc'']]"
proof -
  have ok: "fst (tile keep_chunks empty_fs line4 [(''x'', [2, 2])] [''out''] ''part'' None (BufInt 1)) = Inr ()"
    by code_simp
  have e: "encoded_names ''part'' [(''x'', [2, 2])] (BufInt 1) = [''part.x_0.nc'', ''part.x_1.nc'']"
    by code_simp
  from tile_names_encode_buffered_start[OF ok] ok show ?thesis
    by (simp add: e empty_fs_def)
qed

text \<open>
  Claim C1 as stated (the name encodes the unbuffered start \<open>k\<close> whatever the buffer) fails:
  for chunks of lengths 2 and 2, whose starts are 0 and 2, the second tile is
  \<open>part.x_2.nc\<close> with buffer 0 and \<open>part.x_1.nc\<close> with buffer 1.
\<close>

theorem tile_name_unbuffered_start_counterexample:
  "chunk_starts 0 [2, 2] = [0, 2]
   \<and> writes_of (trace (snd (tile keep_chunks empty_fs line4 [(''x'', [2, 2])] [''out''] ''part'' None (BufInt 0))))
       = [[''out'', ''part.x_0.nc''], [''out'', ''part.x_2.nc'']]
   \<and> writes_of (trace (snd (tile keep_chunks empty_fs line4 [(''x'', [2, 2])] [''out''] ''part'' None (BufInt 1))))
       = [[''out'', ''part.x_0.nc''], [''out'', ''part.x_1.nc'']]"
  by code_simp

subsection \<open>Claims about auto\_merge\<close>

text \<open>
  Claim C9, as the code has it. With an overlap \<open>b > 0\<close>, a group of exactly one fragment is
  replaced by two copies of the fragment, one without its last \<open>b\<close> entries and one without
  its first \<open>b\<close> entries along the concatenation axis, and both are handed to the
  concatenation. The coordinates of the result along the axis are those of the two copies
  one after the other, so the result differs from the fragment whenever the length of the
  fragment along the axis is not \<open>2 b\<close>.
\<close>

theorem single_fragment_group_copied:
  assumes "0 < b" "dict_contains (dims f) d" "distinct (map fst (dims f))"
  shows "\<exists>f1 f2 m.
           isel f [(d, Slice None (Some (- b)))] = Inr f1
         \<and> isel f [(d, Slice (Some b) None)] = Inr f2
         \<and> trim_group b d [f] = Inr [f1, f2]
         \<and> auto_combine [f1, f2] d = Inr m
         \<and> combine_groups (BufInt b) cache d [[f]] = Inr ([m], cache)
         \<and> coords_of m d = take (length (coords_of f d) - nat b) (coords_of f d) @ drop (nat b) (coords_of f d)
         \<and> (coords_of f d \<noteq> [] \<and> length (coords_of f d) \<noteq> 2 * nat b \<longrightarrow> m \<noteq> f)"
proof -
  let ?s1 = "Slice None (Some (- b))" and ?s2 = "Slice (Some b) None"
  let ?f1 = "\<lparr>dims = map (\<lambda>(n, c). (n, if n = d then slice_list ?s1 c else c)) (dims f),
          data = isel_nd (map (\<lambda>(n, c). if n = d then Some ?s1 else None) (dims f)) (data f)\<rparr>"
  let ?f2 = "\<lparr>dims = map (\<lambda>(n, c). (n, if n = d then slice_list ?s2 c else c)) (dims f),
          data = isel_nd (map (\<lambda>(n, c). if n = d then Some ?s2 else None) (dims f)) (data f)\<rparr>"
  let ?c = "coords_of f d"
  have i1: "isel f [(d, ?s1)] = Inr ?f1" and i2: "isel f [(d, ?s2)] = Inr ?f2"
    by (rule isel_single[OF assms(2)])+
  have tg: "trim_group b d [f] = Inr [?f1, ?f2]"
    using assms(1) by (simp add: trim_group_def i1 i2)
  have dc1: "dict_contains (dims ?f1) d"
    using assms(2) by (force simp: dict_contains_def)
  have ag: "agree_except d ?f1 ?f2"
    by (rule agree_except_self_slices[OF assms(3)])
  have c1: "coords_of ?f1 d = take (length ?c - nat b) ?c"
    using assms(1,2) by (simp add: coords_of_def coords_of_map slice_list_drop_last split: option.splits)
  have c2: "coords_of ?f2 d = drop (nat b) ?c"
    using assms(1,2) by (simp add: coords_of_def coords_of_map slice_list_drop_first split: option.splits)
  let ?m = "\<lparr>dims = map (\<lambda>(n, c). (n, if n = d then concat (map (\<lambda>f. coords_of f d) [?f1, ?f2]) else c)) (dims ?f1),
             data = concat_nd (index_of d (map fst (dims ?f1))) (map data [?f1, ?f2])\<rparr>"
  have ac: "auto_combine [?f1, ?f2] d = Inr ?m"
    using dc1 ag by (simp add: auto_combine_def)
  have cm: "coords_of ?m d = take (length ?c - nat b) ?c @ drop (nat b) ?c"
    unfolding coords_of_auto_combine[OF ac] using c1 c2 by simp
  have cg: "combine_groups (BufInt b) cache d [[f]] = Inr ([?m], cache)"
    by (simp add: tg ac)
  have ne: "coords_of f d \<noteq> [] \<and> length (coords_of f d) \<noteq> 2 * nat b \<longrightarrow> ?m \<noteq> f"
  proof (intro impI notI)
    assume a: "coords_of f d \<noteq> [] \<and> length (coords_of f d) \<noteq> 2 * nat b" and e: "?m = f"
    from e have "coords_of ?m d = ?c" by simp
    with cm have "length (take (length ?c - nat b) ?c @ drop (nat b) ?c) = length ?c" by simp
    then have "min (length ?c) (length ?c - nat b) + (length ?c - nat b) = length ?c" by simp
    moreover have "0 < length ?c" using a by simp
    ultimately show False using a by arith
  qed
  from i1 i2 tg ac cg cm ne show ?thesis by blast
qed

theorem single_fragment_group_copied_witness:
  "0 < (1::int) \<and> dict_contains (dims frag_c3) ''x'' \<and> distinct (map fst (dims frag_c3))
   \<and> combine_groups (BufInt 1) [] ''x'' [[frag_c3]]
       = Inr ([\<lparr>dims = [(''y'', [7]), (''x'', [0, 1, 1, 2])],
                data = Arr [Arr [Scalar 5, Scalar 6, Scalar 6, Scalar 7]]\<rparr>], [])
   \<and> coords_of frag_c3 ''x'' \<noteq> [] \<and> length (coords_of frag_c3 ''x'') \<noteq> 2 * nat 1"
proof -
  have h: "0 < (1::int)" "dict_contains (dims frag_c3) ''x''" "distinct (map fst (dims frag_c3))"
    by (simp_all add: frag_c3_def dict_contains_def)
  from single_fragment_group_copied[OF h, of "[]"] obtain m where
    m: "combine_groups (BufInt 1) [] ''x'' [[frag_c3]] = Inr ([m], [])"
    and ne: "coords_of frag_c3 ''x'' \<noteq> [] \<and> length (coords_of frag_c3 ''x'') \<noteq> 2 * nat 1 \<longrightarrow> m \<noteq> frag_c3"
    by blast
  have v: "combine_groups (BufInt 1) [] ''x'' [[frag_c3]]
       = Inr ([\<lparr>dims = [(''y'', [7]), (''x'', [0, 1, 1, 2])],
                data = Arr [Arr [Scalar 5, Scalar 6, Scalar 6, Scalar 7]]\<rparr>], [])"
    by code_simp
  have c: "coords_of frag_c3 ''x'' \<noteq> []" "length (coords_of frag_c3 ''x'') \<noteq> 2 * nat 1"
    by (simp_all add: frag_c3_def coords_of_def)
  from h v c m show ?thesis by simp
qed

text \<open>
  Claim C9 as stated (the merged result of the group always differs from the fragment) fails
  for a fragment of length \<open>2 b\<close>: in a pass over \<open>frag_a\<close>, \<open>frag_b\<close> and \<open>frag_c\<close> with
  overlap 1, \<open>frag_c\<close> is alone in its group and has two columns; its two copies are its two
  halves, and the result for the group is \<open>frag_c\<close> again.
\<close>

theorem single_fragment_group_unchanged_counterexample:
  "combine_along_last_dim (BufInt 1) [] [frag_a, frag_b, frag_c]
     = Inr ([\<lparr>dims = [(''y'', [0]), (''x'', [0, 6])], data = Arr [Arr [Scalar 1, Scalar 4]]\<rparr>, frag_c], [])
   \<and> groupby (key_of [''y'']) (sort_key (key_of [''y'', ''x'']) [frag_a, frag_b, frag_c])
       = [[frag_a, frag_b], [frag_c]]
   \<and> combine_groups (BufInt 1) [] ''x'' [[frag_c]] = Inr ([frag_c], [])"
  by code_simp




end
